theory Spec2Isabelle
  imports Complex_Main
begin

section \<open>JavaScript numbers\<close>

text \<open>
  A JavaScript number is NaN, an infinity, a zero of either sign or a finite non-zero
  value. \<open>Fin 0\<close> is the positive zero, \<open>NegZero\<close> the negative one. The special
  values follow IEEE 754 as ECMAScript prescribes them. A finite value is carried as a
  real; the values that binary64 has are those that satisfy \<open>is_double\<close> below, and
  every arithmetic operation rounds its exact result to one of them.
\<close>

datatype jsnum = NaN | PosInf | NegInf | NegZero | Fin real

fun signbit :: "jsnum \<Rightarrow> bool" where
  "signbit NaN = False"
| "signbit PosInf = False"
| "signbit NegInf = True"
| "signbit NegZero = True"
| "signbit (Fin r) = (r < 0)"

fun is_zero :: "jsnum \<Rightarrow> bool" where
  "is_zero NegZero = True"
| "is_zero (Fin r) = (r = 0)"
| "is_zero NaN = False"
| "is_zero PosInf = False"
| "is_zero NegInf = False"

fun is_inf :: "jsnum \<Rightarrow> bool" where
  "is_inf PosInf = True"
| "is_inf NegInf = True"
| "is_inf NaN = False"
| "is_inf NegZero = False"
| "is_inf (Fin r) = False"

fun is_finite :: "jsnum \<Rightarrow> bool" where
  "is_finite (Fin r) = True"
| "is_finite NegZero = True"
| "is_finite NaN = False"
| "is_finite PosInf = False"
| "is_finite NegInf = False"

text \<open>The real value of a finite number (both zeros are 0).\<close>

fun val :: "jsnum \<Rightarrow> real" where
  "val (Fin r) = r"
| "val NegZero = 0"
| "val NaN = 0"
| "val PosInf = 0"
| "val NegInf = 0"

definition zero_of :: "bool \<Rightarrow> jsnum" where
  "zero_of s = (if s then NegZero else Fin 0)"

definition inf_of :: "bool \<Rightarrow> jsnum" where
  "inf_of s = (if s then NegInf else PosInf)"

subsection \<open>Rounding to binary64\<close>

text \<open>
  A binary64 value is \<open>m * 2^e\<close> with \<open>|m| < 2^53\<close> and \<open>e \<ge> -1074\<close>. Around a real
  \<open>x\<close> these values are spaced \<open>2^u\<close> apart, where \<open>u\<close> is \<open>\<lfloor>log\<^sub>2 |x|\<rfloor> - 52\<close> and not
  less than \<open>-1074\<close> (the subnormal range). \<open>nearest x\<close> is the one closest to \<open>x\<close>, a
  tie going to the even multiple of \<open>2^u\<close> (roundTiesToEven, the rounding of every
  ECMAScript operator and of numeric literals).
\<close>

definition ulp_exponent :: "real \<Rightarrow> int" where
  "ulp_exponent x = max (\<lfloor>log 2 \<bar>x\<bar>\<rfloor> - 52) (- 1074)"

definition round_half_even :: "real \<Rightarrow> int" where
  "round_half_even y =
     (let n = \<lfloor>y\<rfloor>; d = y - of_int n
      in if d < 1/2 then n else if 1/2 < d then n + 1 else if even n then n else n + 1)"

definition nearest :: "real \<Rightarrow> real" where
  "nearest x =
     sgn x * (of_int (round_half_even (\<bar>x\<bar> / 2 powi ulp_exponent x)) * 2 powi ulp_exponent x)"

text \<open>The reals that binary64 can hold, the exponent range left open upwards.\<close>

definition representable :: "real \<Rightarrow> bool" where
  "representable x = (\<exists>m e. x = of_int m * 2 powi e \<and> \<bar>m\<bar> < 2 ^ 53 \<and> - 1074 \<le> e)"

text \<open>
  The Number value of a real: its nearest binary64 value, an infinity as soon as that
  value reaches \<open>2^1024\<close> in magnitude, and a zero of sign \<open>s\<close> when it underflows to
  zero.
\<close>

definition overflow_threshold :: real where
  "overflow_threshold = 2 ^ 1024"

definition number_of :: "bool \<Rightarrow> real \<Rightarrow> jsnum" where
  "number_of s x =
     (let y = nearest x
      in if overflow_threshold \<le> y then PosInf
         else if y \<le> - overflow_threshold then NegInf
         else if y = 0 then zero_of s
         else Fin y)"

text \<open>A numeric literal of the source, such as \<open>0.12\<close>.\<close>

definition num :: "real \<Rightarrow> jsnum" where
  "num x = number_of (x < 0) x"

text \<open>The values that binary64 has.\<close>

definition is_double :: "jsnum \<Rightarrow> bool" where
  "is_double x = (representable (val x) \<and> \<bar>val x\<bar> < overflow_threshold)"

subsection \<open>Arithmetic and comparison\<close>

text \<open>\<open>x * y\<close>\<close>

definition js_mul :: "jsnum \<Rightarrow> jsnum \<Rightarrow> jsnum" where
  "js_mul x y =
     (if x = NaN \<or> y = NaN then NaN
      else if (is_inf x \<and> is_zero y) \<or> (is_zero x \<and> is_inf y) then NaN
      else if is_inf x \<or> is_inf y then inf_of (signbit x \<noteq> signbit y)
      else number_of (signbit x \<noteq> signbit y) (val x * val y))"

text \<open>\<open>x / y\<close>\<close>

definition js_div :: "jsnum \<Rightarrow> jsnum \<Rightarrow> jsnum" where
  "js_div x y =
     (if x = NaN \<or> y = NaN then NaN
      else if (is_inf x \<and> is_inf y) \<or> (is_zero x \<and> is_zero y) then NaN
      else if is_inf x \<or> is_zero y then inf_of (signbit x \<noteq> signbit y)
      else if is_inf y then zero_of (signbit x \<noteq> signbit y)
      else number_of (signbit x \<noteq> signbit y) (val x / val y))"

text \<open>Unary minus; it is exact.\<close>

fun js_neg :: "jsnum \<Rightarrow> jsnum" where
  "js_neg NaN = NaN"
| "js_neg PosInf = NegInf"
| "js_neg NegInf = PosInf"
| "js_neg NegZero = Fin 0"
| "js_neg (Fin r) = (if r = 0 then NegZero else Fin (- r))"

text \<open>
  \<open>x + y\<close>: opposite infinities give NaN; a zero sum is the positive zero unless both
  operands are negative zeros.
\<close>

definition js_add :: "jsnum \<Rightarrow> jsnum \<Rightarrow> jsnum" where
  "js_add x y =
     (if x = NaN \<or> y = NaN then NaN
      else if is_inf x \<and> is_inf y then (if x = y then x else NaN)
      else if is_inf x then x
      else if is_inf y then y
      else if is_zero x \<and> is_zero y then zero_of (signbit x \<and> signbit y)
      else number_of (val x + val y < 0) (val x + val y))"

text \<open>\<open>x - y\<close>\<close>

definition js_sub :: "jsnum \<Rightarrow> jsnum \<Rightarrow> jsnum" where
  "js_sub x y = js_add x (js_neg y)"

text \<open>
  \<open>Math.round(x)\<close>: the nearest integer, ties towards \<open>+\<infinity>\<close>; the result is the
  negative zero for \<open>-0\<close> and for \<open>-0.5 \<le> x < 0\<close>. On a binary64 value the result is
  exact.
\<close>

fun Math_round :: "jsnum \<Rightarrow> jsnum" where
  "Math_round NaN = NaN"
| "Math_round PosInf = PosInf"
| "Math_round NegInf = NegInf"
| "Math_round NegZero = NegZero"
| "Math_round (Fin r) =
     (if - (1/2) \<le> r \<and> r < 0 then NegZero else Fin (of_int \<lfloor>r + 1/2\<rfloor>))"

text \<open>
  The comparisons \<open>x < y\<close>, \<open>x <= y\<close>, \<open>x > y\<close>, \<open>x >= y\<close>, \<open>x === y\<close>: false as
  soon as an operand is NaN; the two zeros are equal.
\<close>

fun js_lt :: "jsnum \<Rightarrow> jsnum \<Rightarrow> bool" where
  "js_lt NaN y = False"
| "js_lt x NaN = False"
| "js_lt PosInf y = False"
| "js_lt x NegInf = False"
| "js_lt NegInf y = True"
| "js_lt x PosInf = True"
| "js_lt x y = (val x < val y)"

definition js_gt :: "jsnum \<Rightarrow> jsnum \<Rightarrow> bool" where
  "js_gt x y = js_lt y x"

definition js_eq :: "jsnum \<Rightarrow> jsnum \<Rightarrow> bool" where
  "js_eq x y = (x \<noteq> NaN \<and> y \<noteq> NaN \<and> \<not> js_lt x y \<and> \<not> js_lt y x)"

definition js_le :: "jsnum \<Rightarrow> jsnum \<Rightarrow> bool" where
  "js_le x y = (js_lt x y \<or> js_eq x y)"

definition js_ge :: "jsnum \<Rightarrow> jsnum \<Rightarrow> bool" where
  "js_ge x y = js_le y x"

text \<open>The idiom \<open>Math.round(x * 100) / 100\<close> that every result of the calculator goes through.\<close>

definition round2 :: "jsnum \<Rightarrow> jsnum" where
  "round2 x = js_div (Math_round (js_mul x (Fin 100))) (Fin 100)"

subsection \<open>The Math object and the arithmetic of the great-circle distance\<close>

text \<open>
  ECMAScript leaves the precision of \<open>Math.sin\<close>, \<open>Math.cos\<close>, \<open>Math.sqrt\<close> and
  \<open>Math.atan2\<close> to the implementation. They are modelled by the real functions, with
  the special cases that ECMAScript lists, and the arithmetic of the one function that
  calls them, \<open>haversineDistance\<close>, and of the rounding of its result is modelled
  without rounding error as well: \<open>exact_mul\<close>, \<open>exact_div\<close>, \<open>exact_add\<close> and
  \<open>exact_sub\<close> treat NaN, the infinities and the zeros as \<open>*\<close>, \<open>/\<close>, \<open>+\<close> and \<open>-\<close> do
  and return the exact result on finite values.
\<close>

text \<open>A finite result \<open>r\<close>; when it is zero its sign is \<open>s\<close>.\<close>

definition finite_of :: "bool \<Rightarrow> real \<Rightarrow> jsnum" where
  "finite_of s r = (if r = 0 then zero_of s else Fin r)"

text \<open>\<open>x * y\<close>\<close>

definition exact_mul :: "jsnum \<Rightarrow> jsnum \<Rightarrow> jsnum" where
  "exact_mul x y =
     (if x = NaN \<or> y = NaN then NaN
      else if (is_inf x \<and> is_zero y) \<or> (is_zero x \<and> is_inf y) then NaN
      else if is_inf x \<or> is_inf y then inf_of (signbit x \<noteq> signbit y)
      else finite_of (signbit x \<noteq> signbit y) (val x * val y))"

text \<open>\<open>x / y\<close>\<close>

definition exact_div :: "jsnum \<Rightarrow> jsnum \<Rightarrow> jsnum" where
  "exact_div x y =
     (if x = NaN \<or> y = NaN then NaN
      else if (is_inf x \<and> is_inf y) \<or> (is_zero x \<and> is_zero y) then NaN
      else if is_inf x \<or> is_zero y then inf_of (signbit x \<noteq> signbit y)
      else if is_inf y then zero_of (signbit x \<noteq> signbit y)
      else finite_of (signbit x \<noteq> signbit y) (val x / val y))"

text \<open>
  \<open>x + y\<close>: opposite infinities give NaN; a zero sum is the positive zero unless both
  operands are negative zeros.
\<close>

definition exact_add :: "jsnum \<Rightarrow> jsnum \<Rightarrow> jsnum" where
  "exact_add x y =
     (if x = NaN \<or> y = NaN then NaN
      else if is_inf x \<and> is_inf y then (if x = y then x else NaN)
      else if is_inf x then x
      else if is_inf y then y
      else if is_zero x \<and> is_zero y then zero_of (signbit x \<and> signbit y)
      else Fin (val x + val y))"

text \<open>\<open>x - y\<close>\<close>

definition exact_sub :: "jsnum \<Rightarrow> jsnum \<Rightarrow> jsnum" where
  "exact_sub x y = exact_add x (js_neg y)"

text \<open>The idiom \<open>Math.round(x * 100) / 100\<close>, without rounding error.\<close>

definition exact_round2 :: "jsnum \<Rightarrow> jsnum" where
  "exact_round2 x = exact_div (Math_round (exact_mul x (Fin 100))) (Fin 100)"

definition Math_PI :: jsnum where
  "Math_PI = Fin pi"

fun Math_sin :: "jsnum \<Rightarrow> jsnum" where
  "Math_sin NaN = NaN"
| "Math_sin PosInf = NaN"
| "Math_sin NegInf = NaN"
| "Math_sin NegZero = NegZero"
| "Math_sin (Fin r) = Fin (sin r)"

fun Math_cos :: "jsnum \<Rightarrow> jsnum" where
  "Math_cos NaN = NaN"
| "Math_cos PosInf = NaN"
| "Math_cos NegInf = NaN"
| "Math_cos NegZero = Fin 1"
| "Math_cos (Fin r) = Fin (cos r)"

fun Math_sqrt :: "jsnum \<Rightarrow> jsnum" where
  "Math_sqrt NaN = NaN"
| "Math_sqrt PosInf = PosInf"
| "Math_sqrt NegInf = NaN"
| "Math_sqrt NegZero = NegZero"
| "Math_sqrt (Fin r) = (if r < 0 then NaN else Fin (sqrt r))"

text \<open>The angle of the point \<open>(x, y)\<close>, in \<open>(-\<pi>, \<pi>]\<close>.\<close>

definition atan2 :: "real \<Rightarrow> real \<Rightarrow> real" where
  "atan2 y x =
     (if 0 < x then arctan (y / x)
      else if x < 0 then (if 0 \<le> y then arctan (y / x) + pi else arctan (y / x) - pi)
      else if 0 < y then pi / 2
      else if y < 0 then - (pi / 2)
      else 0)"

text \<open>\<open>Math.atan2(y, x)\<close>, with the table of special cases of ECMAScript.\<close>

definition Math_atan2 :: "jsnum \<Rightarrow> jsnum \<Rightarrow> jsnum" where
  "Math_atan2 y x =
     (if y = NaN \<or> x = NaN then NaN
      else if y = PosInf then
        (if x = PosInf then Fin (pi / 4) else if x = NegInf then Fin (3 * pi / 4)
         else Fin (pi / 2))
      else if y = NegInf then
        (if x = PosInf then Fin (- (pi / 4)) else if x = NegInf then Fin (- (3 * pi / 4))
         else Fin (- (pi / 2)))
      else if is_zero y then
        (if signbit x then (if signbit y then Fin (- pi) else Fin pi) else y)
      else if x = PosInf then zero_of (signbit y)
      else if x = NegInf then (if signbit y then Fin (- pi) else Fin pi)
      else if is_zero x then (if signbit y then Fin (- (pi / 2)) else Fin (pi / 2))
      else Fin (atan2 (val y) (val x)))"

section \<open>Strings, values and objects\<close>

text \<open>
  A JavaScript string is its sequence of UTF-16 code units. \<open>str\<close> turns an ASCII
  literal into one; a code unit beyond ASCII is written as a number
  (\<open>0xE3\<close> is a with tilde).
\<close>

type_synonym js_string = "nat list"

definition str :: "string \<Rightarrow> js_string" where
  "str cs = map of_char cs"

text \<open>\<open>x < y\<close> on strings: lexicographic on the code units, a proper prefix first.\<close>

fun string_lt :: "js_string \<Rightarrow> js_string \<Rightarrow> bool" where
  "string_lt [] [] = False"
| "string_lt [] (y # ys) = True"
| "string_lt (x # xs) [] = False"
| "string_lt (x # xs) (y # ys) = (x < y \<or> (x = y \<and> string_lt xs ys))"

record coords =
  lat :: jsnum
  lng :: jsnum

text \<open>
  The values the two modules handle: \<open>undefined\<close>, \<open>null\<close>, a number, a
  \<open>{lat, lng}\<close> object of the route table, and a property that an object literal
  inherits from \<open>Object.prototype\<close> (a built-in function or, for \<open>__proto__\<close>,
  the prototype object itself).
\<close>

datatype jsval = Undefined | Null | Number jsnum | Coords coords | Inherited js_string

datatype js_error = TypeError

definition Object_prototype :: "js_string list" where
  "Object_prototype =
     [str ''constructor'', str ''hasOwnProperty'', str ''isPrototypeOf'',
      str ''propertyIsEnumerable'', str ''toLocaleString'', str ''toString'',
      str ''valueOf'', str ''__proto__'', str ''__defineGetter__'',
      str ''__defineSetter__'', str ''__lookupGetter__'', str ''__lookupSetter__'']"

text \<open>
  \<open>obj[key]\<close> on an object literal: the own property, else the one inherited from
  \<open>Object.prototype\<close>, else \<open>undefined\<close>. It never throws.
\<close>

definition get_property :: "(js_string \<times> jsval) list \<Rightarrow> js_string \<Rightarrow> jsval" where
  "get_property obj key =
     (case map_of obj key of
        Some v \<Rightarrow> v
      | None \<Rightarrow> if key \<in> set Object_prototype then Inherited key else Undefined)"

text \<open>
  \<open>v.lat\<close> and \<open>v.lng\<close>: a TypeError on \<open>undefined\<close> and \<open>null\<close>; \<open>undefined\<close>
  on a value that has no such property.
\<close>

fun get_lat :: "jsval \<Rightarrow> js_error + jsval" where
  "get_lat Undefined = Inl TypeError"
| "get_lat Null = Inl TypeError"
| "get_lat (Number n) = Inr Undefined"
| "get_lat (Coords c) = Inr (Number (lat c))"
| "get_lat (Inherited k) = Inr Undefined"

fun get_lng :: "jsval \<Rightarrow> js_error + jsval" where
  "get_lng Undefined = Inl TypeError"
| "get_lng Null = Inl TypeError"
| "get_lng (Number n) = Inr Undefined"
| "get_lng (Coords c) = Inr (Number (lng c))"
| "get_lng (Inherited k) = Inr Undefined"

text \<open>A step that may throw, followed by the rest of the function body.\<close>

definition bind_result :: "js_error + 'a \<Rightarrow> ('a \<Rightarrow> js_error + 'b) \<Rightarrow> js_error + 'b" where
  "bind_result r f = (case r of Inl err \<Rightarrow> Inl err | Inr v \<Rightarrow> f v)"

text \<open>ToBoolean, as \<open>!v\<close> applies it.\<close>

fun truthy :: "jsval \<Rightarrow> bool" where
  "truthy Undefined = False"
| "truthy Null = False"
| "truthy (Number n) = (n \<noteq> NaN \<and> \<not> is_zero n)"
| "truthy (Coords c) = True"
| "truthy (Inherited k) = True"

text \<open>
  ToNumber, as an arithmetic operator applies it to an operand: an object or a function
  becomes a string that is not a numeral, hence NaN.
\<close>

fun to_number :: "jsval \<Rightarrow> jsnum" where
  "to_number Undefined = NaN"
| "to_number Null = Fin 0"
| "to_number (Number n) = n"
| "to_number (Coords c) = NaN"
| "to_number (Inherited k) = NaN"

subsection \<open>Array.prototype.sort\<close>

text \<open>
  The sort is stable; a comparator result that is NaN counts as 0. With a comparator,
  \<open>x\<close> goes behind \<open>y\<close> when \<open>cmp(x, y) > 0\<close>.
\<close>

fun insert_sorted :: "('a \<Rightarrow> 'a \<Rightarrow> jsnum) \<Rightarrow> 'a \<Rightarrow> 'a list \<Rightarrow> 'a list" where
  "insert_sorted cmp x [] = [x]"
| "insert_sorted cmp x (y # ys) =
     (if js_gt (cmp x y) (Fin 0) then y # insert_sorted cmp x ys else x # y # ys)"

definition Array_sort :: "('a \<Rightarrow> 'a \<Rightarrow> jsnum) \<Rightarrow> 'a list \<Rightarrow> 'a list" where
  "Array_sort cmp xs = foldr (insert_sorted cmp) xs []"

text \<open>The comparison that \<open>sort()\<close> uses when it is given no comparator, on strings.\<close>

definition SortCompare :: "js_string \<Rightarrow> js_string \<Rightarrow> jsnum" where
  "SortCompare x y =
     (if string_lt x y then Fin (- 1) else if string_lt y x then Fin 1 else Fin 0)"

text \<open>
  \<open>Object.keys(obj)\<close> and \<open>for (const k in obj)\<close>: the own keys in insertion order
  (none of them is an array index; the properties of \<open>Object.prototype\<close> are not
  enumerable).
\<close>

definition Object_keys :: "(js_string \<times> jsval) list \<Rightarrow> js_string list" where
  "Object_keys obj = map fst obj"

section \<open>CONFIG\<close>

definition EMISSION_FACTORS :: "(js_string \<times> jsval) list" where
  "EMISSION_FACTORS =
     [(str ''bicycle'', Number (Fin 0)),
      (str ''car'', Number (num 0.12)),
      (str ''bus'', Number (num 0.089)),
      (str ''truck'', Number (num 0.96))]"

definition KG_PER_CREDIT :: jsnum where
  "KG_PER_CREDIT = Fin 1000"

definition PRICE_MIN_BRL :: jsnum where
  "PRICE_MIN_BRL = Fin 50"

definition PRICE_MAX_BRL :: jsnum where
  "PRICE_MAX_BRL = Fin 150"

section \<open>Calculator\<close>

record comparison =
  mode :: js_string
  emission :: jsnum
  percentageVsCar :: jsnum

record savings =
  savedKg :: jsnum
  percentage :: jsnum

record price =
  min_price :: jsnum
  max_price :: jsnum
  average :: jsnum

definition calculateEmission :: "jsnum \<Rightarrow> js_string \<Rightarrow> jsnum" where
  "calculateEmission distanceKm transportMode =
     (let factor = get_property EMISSION_FACTORS transportMode;
          e = js_mul distanceKm (to_number factor)
      in round2 e)"

text \<open>The body of the loop of \<open>calculateAllModes\<close>: the entry pushed for one mode.\<close>

definition mode_entry :: "jsnum \<Rightarrow> jsnum \<Rightarrow> js_string \<Rightarrow> comparison" where
  "mode_entry distanceKm carEmission m =
     (let e = calculateEmission distanceKm m;
          p = js_mul (js_div e carEmission) (Fin 100)
      in \<lparr>mode = m, emission = e, percentageVsCar = round2 p\<rparr>)"

definition calculateAllModes :: "jsnum \<Rightarrow> comparison list" where
  "calculateAllModes distanceKm =
     (let carEmission = calculateEmission distanceKm (str ''car'');
          results = map (mode_entry distanceKm carEmission) (Object_keys EMISSION_FACTORS)
      in Array_sort (\<lambda>a b. js_sub (emission a) (emission b)) results)"

definition calculateSavings :: "jsnum \<Rightarrow> jsnum \<Rightarrow> savings" where
  "calculateSavings e baselineEmission =
     (let saved = js_sub baselineEmission e;
          p = js_mul (js_div saved baselineEmission) (Fin 100)
      in \<lparr>savedKg = round2 saved, percentage = round2 p\<rparr>)"

definition calculateCarbonCredits :: "jsnum \<Rightarrow> jsnum" where
  "calculateCarbonCredits emissionKg =
     (let credits = js_div emissionKg KG_PER_CREDIT in round2 credits)"

definition estimateCreditPrice :: "jsnum \<Rightarrow> price" where
  "estimateCreditPrice credits =
     (let lo = js_mul credits PRICE_MIN_BRL;
          hi = js_mul credits PRICE_MAX_BRL;
          av = js_div (js_add lo hi) (Fin 2)
      in \<lparr>min_price = round2 lo, max_price = round2 hi, average = round2 av\<rparr>)"

section \<open>RoutesDB\<close>

definition city :: "real \<Rightarrow> real \<Rightarrow> jsval" where
  "city la lo = Coords \<lparr>lat = Fin la, lng = Fin lo\<rparr>"

definition ROUTES_DATA :: "(js_string \<times> jsval) list" where
  "ROUTES_DATA =
     [(str ''S'' @ [0xE3] @ str ''o Paulo'', city (- 23.5505) (- 46.6333)),
      (str ''Rio de Janeiro'', city (- 22.9068) (- 43.1729)),
      (str ''Belo Horizonte'', city (- 19.9167) (- 43.9345)),
      (str ''Salvador'', city (- 12.9714) (- 38.5014)),
      (str ''Bras'' @ [0xED] @ str ''lia'', city (- 15.8267) (- 47.8711)),
      (str ''Curitiba'', city (- 25.4284) (- 49.2733)),
      (str ''Manaus'', city (- 3.1190) (- 60.0217)),
      (str ''Bel'' @ [0xE9] @ str ''m'', city (- 1.4554) (- 48.5039)),
      (str ''Recife'', city (- 8.0476) (- 34.8770)),
      (str ''Fortaleza'', city (- 3.7319) (- 38.5267)),
      (str ''Porto Alegre'', city (- 30.0346) (- 51.2177)),
      (str ''Goi'' @ [0xE2] @ str ''nia'', city (- 15.7942) (- 48.0766)),
      (str ''Campinas'', city (- 22.9068) (- 47.0616)),
      (str ''Santos'', city (- 23.9608) (- 46.3338)),
      (str ''Sorocaba'', city (- 23.5015) (- 47.4584))]"

definition haversineDistance :: "jsnum \<Rightarrow> jsnum \<Rightarrow> jsnum \<Rightarrow> jsnum \<Rightarrow> jsnum" where
  "haversineDistance lat1 lon1 lat2 lon2 =
     (let R = Fin 6371;
          dLat = exact_div (exact_mul (exact_sub lat2 lat1) Math_PI) (Fin 180);
          dLon = exact_div (exact_mul (exact_sub lon2 lon1) Math_PI) (Fin 180);
          a = exact_add
                (exact_mul (Math_sin (exact_div dLat (Fin 2))) (Math_sin (exact_div dLat (Fin 2))))
                (exact_mul
                  (exact_mul
                    (exact_mul (Math_cos (exact_div (exact_mul lat1 Math_PI) (Fin 180)))
                            (Math_cos (exact_div (exact_mul lat2 Math_PI) (Fin 180))))
                    (Math_sin (exact_div dLon (Fin 2))))
                  (Math_sin (exact_div dLon (Fin 2))));
          c = exact_mul (Fin 2) (Math_atan2 (Math_sqrt a) (Math_sqrt (exact_sub (Fin 1) a)))
      in exact_mul R c)"

definition getAllCities :: "js_string list" where
  "getAllCities = Array_sort SortCompare (Object_keys ROUTES_DATA)"

text \<open>
  The four coordinates reach \<open>haversineDistance\<close> as they are read; its arithmetic
  converts each of them with ToNumber.
\<close>

definition findDistance :: "js_string \<Rightarrow> js_string \<Rightarrow> js_error + jsval" where
  "findDistance origin destination =
     (if \<not> truthy (get_property ROUTES_DATA origin)
         \<or> \<not> truthy (get_property ROUTES_DATA destination)
      then Inr Null
      else
        let orig = get_property ROUTES_DATA origin;
            dest = get_property ROUTES_DATA destination
        in bind_result (get_lat orig) (\<lambda>olat.
           bind_result (get_lng orig) (\<lambda>olng.
           bind_result (get_lat dest) (\<lambda>dlat.
           bind_result (get_lng dest) (\<lambda>dlng.
             let distance = haversineDistance (to_number olat) (to_number olng)
                              (to_number dlat) (to_number dlng)
             in Inr (Number (exact_round2 distance)))))))"

section \<open>The properties, as the specification words them\<close>

text \<open>Degrees to radians.\<close>

definition radians :: "real \<Rightarrow> real" where
  "radians x = x * pi / 180"

text \<open>
  The haversine great-circle distance of the specification, in kilometres, between
  \<open>(lat1, lon1)\<close> and \<open>(lat2, lon2)\<close> given in degrees.
\<close>

definition great_circle_km :: "real \<Rightarrow> real \<Rightarrow> real \<Rightarrow> real \<Rightarrow> real" where
  "great_circle_km lat1 lon1 lat2 lon2 =
     (let a = (sin (radians (lat2 - lat1) / 2))\<^sup>2
              + cos (radians lat1) * cos (radians lat2) * (sin (radians (lon2 - lon1) / 2))\<^sup>2;
          c = 2 * atan2 (sqrt a) (sqrt (1 - a))
      in 6371 * c)"

text \<open>A name has an exact-match entry in the city registry.\<close>

definition registered :: "js_string \<Rightarrow> bool" where
  "registered name = (name \<in> set (Object_keys ROUTES_DATA))"

text \<open>
  Alphabetical order: names compare letter by letter, a letter standing for its base
  letter whatever its case and its diacritic (the Latin-1 letters).
\<close>

definition base_letter :: "nat \<Rightarrow> nat" where
  "base_letter c =
     (let l = (if (65 \<le> c \<and> c \<le> 90) \<or> (192 \<le> c \<and> c \<le> 222 \<and> c \<noteq> 215) then c + 32 else c)
      in if 224 \<le> l \<and> l \<le> 229 then 97
         else if l = 231 then 99
         else if 232 \<le> l \<and> l \<le> 235 then 101
         else if 236 \<le> l \<and> l \<le> 239 then 105
         else if l = 241 then 110
         else if (242 \<le> l \<and> l \<le> 246) \<or> l = 248 then 111
         else if 249 \<le> l \<and> l \<le> 252 then 117
         else if l = 253 \<or> l = 255 then 121
         else l)"

definition alphabetical_lt :: "js_string \<Rightarrow> js_string \<Rightarrow> bool" where
  "alphabetical_lt x y = string_lt (map base_letter x) (map base_letter y)"

fun alphabetical :: "js_string list \<Rightarrow> bool" where
  "alphabetical [] = True"
| "alphabetical [x] = True"
| "alphabetical (x # y # ys) = (\<not> alphabetical_lt y x \<and> alphabetical (y # ys))"

text \<open>The coordinates of a registered city, in degrees.\<close>

definition coordinates :: "js_string \<Rightarrow> real \<times> real" where
  "coordinates name =
     (case map_of ROUTES_DATA name of
        Some (Coords c) \<Rightarrow> (val (lat c), val (lng c))
      | _ \<Rightarrow> (0, 0))"

text \<open>A mode has an entry in the emission-factor table.\<close>

definition configured :: "js_string \<Rightarrow> bool" where
  "configured m = (m \<in> set (Object_keys EMISSION_FACTORS))"

text \<open>The position of a mode in the enumeration of the modes.\<close>

fun index_of :: "'a \<Rightarrow> 'a list \<Rightarrow> nat" where
  "index_of x [] = 0"
| "index_of x (y # ys) = (if x = y then 0 else Suc (index_of x ys))"

definition mode_index :: "js_string \<Rightarrow> nat" where
  "mode_index m = index_of m (Object_keys EMISSION_FACTORS)"

text \<open>Entries in ascending order of emission: each one is at most every later one.\<close>

fun ascending :: "comparison list \<Rightarrow> bool" where
  "ascending [] = True"
| "ascending (x # xs) =
     (list_all (\<lambda>y. js_le (emission x) (emission y)) xs \<and> ascending xs)"

text \<open>A mode whose emission factor is zero.\<close>

definition zero_factor :: "js_string \<Rightarrow> bool" where
  "zero_factor m = is_zero (to_number (get_property EMISSION_FACTORS m))"

text \<open>The zero-factor modes come first: no other mode stands before one of them.\<close>

fun zero_factor_first :: "comparison list \<Rightarrow> bool" where
  "zero_factor_first [] = True"
| "zero_factor_first (x # xs) =
     (if zero_factor (mode x) then zero_factor_first xs
      else list_all (\<lambda>y. \<not> zero_factor (mode y)) xs)"

text \<open>Entries of equal emission stand in the order of the enumeration of the modes.\<close>

fun ties_in_enumeration_order :: "comparison list \<Rightarrow> bool" where
  "ties_in_enumeration_order [] = True"
| "ties_in_enumeration_order (x # xs) =
     (list_all (\<lambda>y. js_eq (emission x) (emission y)
                   \<longrightarrow> mode_index (mode x) < mode_index (mode y)) xs
      \<and> ties_in_enumeration_order xs)"

text \<open>
  Two numbers are the same value, the two zeros counting as one (SameValueZero of
  ECMAScript).
\<close>

definition same_value_zero :: "jsnum \<Rightarrow> jsnum \<Rightarrow> bool" where
  "same_value_zero x y = (x = y \<or> (is_zero x \<and> is_zero y))"

text \<open>
  Rounding to 2 decimals, as binary64 arithmetic carries it out on a finite \<open>x\<close>: the
  binary64 value nearest to \<open>100 x\<close> is rounded to the nearest integer, a tie going
  upwards, and the result is the binary64 value nearest to the hundredth of that
  integer.
\<close>

definition two_decimals :: "real \<Rightarrow> real" where
  "two_decimals x = nearest (of_int \<lfloor>nearest (x * 100) + 1/2\<rfloor> / 100)"

section \<open>The nearest binary64 value\<close>

lemma binade:
  assumes "0 < (x::real)"
  shows "2 powi \<lfloor>log 2 x\<rfloor> \<le> x" and "x < 2 powi (\<lfloor>log 2 x\<rfloor> + 1)"
proof -
  have p: "2 powr real_of_int k = 2 powi k" for k
    by (simp add: powr_real_of_int')
  have "2 powr real_of_int \<lfloor>log 2 x\<rfloor> \<le> x \<and> x < 2 powr (real_of_int \<lfloor>log 2 x\<rfloor> + 1)"
    using floor_log_eq_powr_iff[of x 2 "\<lfloor>log 2 x\<rfloor>"] assms by simp
  moreover have "real_of_int \<lfloor>log 2 x\<rfloor> + 1 = real_of_int (\<lfloor>log 2 x\<rfloor> + 1)"
    by simp
  ultimately have "2 powr real_of_int \<lfloor>log 2 x\<rfloor> \<le> x
      \<and> x < 2 powr real_of_int (\<lfloor>log 2 x\<rfloor> + 1)"
    by (simp only:)
  then show "2 powi \<lfloor>log 2 x\<rfloor> \<le> x" and "x < 2 powi (\<lfloor>log 2 x\<rfloor> + 1)"
    unfolding p by blast+
qed

lemma two_powi_less_imp: "(2::real) powi a < 2 powi b \<Longrightarrow> a < b"
  using power_int_increasing[of b a "2::real"] by (cases "a < b") auto

lemma two_powi_le: "a \<le> b \<Longrightarrow> (2::real) powi a \<le> 2 powi b"
  by (rule power_int_increasing) simp_all

lemma two_powi_split: "(2::real) powi (a + b) = 2 powi a * 2 powi b"
  by (rule power_int_add) simp

lemma rhe_upper: "of_int (round_half_even y) \<le> y + 1/2"
  unfolding round_half_even_def Let_def by (auto; linarith)

lemma rhe_lower: "y - 1/2 \<le> of_int (round_half_even y)"
  unfolding round_half_even_def Let_def by (auto; linarith)

lemma rhe_int [simp]: "round_half_even (of_int k) = k"
  by (simp add: round_half_even_def)

lemma rhe_mono: "a \<le> b \<Longrightarrow> round_half_even a \<le> round_half_even b"
proof (rule ccontr)
  assume ab: "a \<le> b" and "\<not> round_half_even a \<le> round_half_even b"
  then have "round_half_even b + 1 \<le> round_half_even a" by simp
  then have "real_of_int (round_half_even b) + 1 \<le> of_int (round_half_even a)"
    by linarith
  with rhe_upper[of a] rhe_lower[of b] have "b \<le> a" by linarith
  with ab have "a = b" by simp
  with \<open>\<not> round_half_even a \<le> round_half_even b\<close> show False by simp
qed

lemma rhe_nonneg: "0 \<le> y \<Longrightarrow> 0 \<le> round_half_even y"
  using rhe_mono[of 0 y] rhe_int[of 0] by simp

lemma ulp_exponent_minus [simp]: "ulp_exponent (- x) = ulp_exponent x"
  by (simp add: ulp_exponent_def)

lemma nearest_minus: "nearest (- x) = - nearest x"
  by (simp add: nearest_def sgn_minus)

lemma nearest_zero [simp]: "nearest 0 = 0"
  by (simp add: nearest_def)

lemma nearest_pos_eq:
  "0 < x \<Longrightarrow> nearest x = of_int (round_half_even (x / 2 powi ulp_exponent x)) * 2 powi ulp_exponent x"
  by (simp add: nearest_def)

lemma nearest_nonneg: "0 \<le> x \<Longrightarrow> 0 \<le> nearest x"
proof (cases "x = 0")
  case False
  assume "0 \<le> x"
  with False have x: "0 < x" by simp
  have "0 \<le> round_half_even (x / 2 powi ulp_exponent x)"
    using x by (intro rhe_nonneg) simp
  then show ?thesis unfolding nearest_pos_eq[OF x] by simp
qed simp

lemma scaled_upper:
  assumes x: "0 < x"
  shows "x / 2 powi ulp_exponent x < 2 ^ 53"
proof -
  let ?e = "ulp_exponent x"
  have "\<lfloor>log 2 x\<rfloor> + 1 \<le> ?e + 53"
    using x by (simp add: ulp_exponent_def)
  then have "x < 2 powi (?e + 53)"
    using binade(2)[OF x] two_powi_le[of "\<lfloor>log 2 x\<rfloor> + 1" "?e + 53"] by linarith
  then have "x < 2 ^ 53 * 2 powi ?e"
    by (simp add: two_powi_split mult.commute)
  then show ?thesis by (simp add: pos_divide_less_eq)
qed

lemma scaled_lower:
  assumes x: "0 < x" and e: "- 1074 < ulp_exponent x"
  shows "2 ^ 52 \<le> x / 2 powi ulp_exponent x"
proof -
  let ?e = "ulp_exponent x"
  have "?e = \<lfloor>log 2 x\<rfloor> - 52"
    using e x by (simp add: ulp_exponent_def max_def split: if_splits)
  then have "2 powi (?e + 52) \<le> x"
    using binade(1)[OF x] by simp
  then have "2 ^ 52 * 2 powi ?e \<le> x"
    by (simp add: two_powi_split mult.commute)
  then show ?thesis by (simp add: pos_le_divide_eq)
qed

lemma ulp_exponent_mono:
  assumes "0 < x" and "x \<le> y"
  shows "ulp_exponent x \<le> ulp_exponent y"
proof -
  have "log 2 x \<le> log 2 y" using assms by simp
  then have "\<lfloor>log 2 x\<rfloor> \<le> \<lfloor>log 2 y\<rfloor>" by (rule floor_mono)
  then show ?thesis using assms by (simp add: ulp_exponent_def)
qed

lemma nearest_mono_pos:
  assumes x: "0 < x" and xy: "x \<le> y"
  shows "nearest x \<le> nearest y"
proof -
  have y: "0 < y" using x xy by simp
  let ?ex = "ulp_exponent x" and ?ey = "ulp_exponent y"
  let ?mx = "round_half_even (x / 2 powi ?ex)" and ?my = "round_half_even (y / 2 powi ?ey)"
  have le: "?ex \<le> ?ey" by (rule ulp_exponent_mono[OF x xy])
  show ?thesis
  proof (cases "?ex = ?ey")
    case True
    have "x / 2 powi ?ey \<le> y / 2 powi ?ey"
      using xy by (simp add: divide_right_mono)
    then have "?mx \<le> ?my" unfolding True by (rule rhe_mono)
    then have "real_of_int ?mx * 2 powi ?ey \<le> real_of_int ?my * 2 powi ?ey"
      by (intro mult_right_mono) simp_all
    then show ?thesis
      unfolding nearest_pos_eq[OF x] nearest_pos_eq[OF y] True .
  next
    case False
    with le have lt: "?ex + 1 \<le> ?ey" by simp
    have "- 1074 \<le> ?ex" by (simp add: ulp_exponent_def)
    with lt have ey: "- 1074 < ?ey" by simp
    have "?mx \<le> round_half_even (2 ^ 53)"
      using scaled_upper[OF x] by (intro rhe_mono) simp
    also have "round_half_even (2 ^ 53) = 2 ^ 53"
      using rhe_int[of "2 ^ 53"] by simp
    finally have "?mx \<le> 2 ^ 53" .
    then have "real_of_int ?mx \<le> real_of_int (2 ^ 53)" by (simp only: of_int_le_iff)
    then have mx: "real_of_int ?mx \<le> 2 ^ 53" by simp
    have "round_half_even (2 ^ 52) \<le> ?my"
      using scaled_lower[OF y ey] by (intro rhe_mono) simp
    moreover have "round_half_even (2 ^ 52) = 2 ^ 52"
      using rhe_int[of "2 ^ 52"] by simp
    ultimately have "2 ^ 52 \<le> ?my" by simp
    then have "real_of_int (2 ^ 52) \<le> real_of_int ?my" by (simp only: of_int_le_iff)
    then have my: "2 ^ 52 \<le> real_of_int ?my" by simp
    have "real_of_int ?mx * 2 powi ?ex \<le> 2 ^ 53 * 2 powi ?ex"
      using mx by (intro mult_right_mono) simp_all
    also have "\<dots> = 2 ^ 52 * 2 powi (?ex + 1)"
      by (simp add: two_powi_split)
    also have "\<dots> \<le> 2 ^ 52 * 2 powi ?ey"
      using two_powi_le[OF lt] by simp
    also have "\<dots> \<le> real_of_int ?my * 2 powi ?ey"
      using my by (intro mult_right_mono) simp_all
    finally show ?thesis
      unfolding nearest_pos_eq[OF x] nearest_pos_eq[OF y] .
  qed
qed

lemma nearest_mono: "x \<le> y \<Longrightarrow> nearest x \<le> nearest y"
proof -
  assume xy: "x \<le> y"
  consider "0 < x" | "x \<le> 0" "0 \<le> y" | "y < 0" by linarith
  then show ?thesis
  proof cases
    case 1
    then show ?thesis using xy by (rule nearest_mono_pos)
  next
    case 2
    have "nearest x \<le> 0"
      using nearest_nonneg[of "- x"] 2(1) by (simp add: nearest_minus)
    moreover have "0 \<le> nearest y" using 2(2) by (rule nearest_nonneg)
    ultimately show ?thesis by simp
  next
    case 3
    then have "nearest (- y) \<le> nearest (- x)"
      using xy by (intro nearest_mono_pos) simp_all
    then show ?thesis by (simp add: nearest_minus)
  qed
qed

lemma nearest_fixed_pos:
  assumes m: "0 < m" "m < 2 ^ 53" and e: "- 1074 \<le> e"
  shows "nearest (of_int m * 2 powi e) = of_int m * 2 powi e"
proof -
  define x :: real where "x = of_int m * 2 powi e"
  define u where "u = ulp_exponent x"
  have x: "0 < x" unfolding x_def using m by simp
  have "real_of_int m < real_of_int (2 ^ 53)" using m(2) by (simp only: of_int_less_iff)
  then have "real_of_int m < 2 ^ 53" by simp
  then have "x < 2 ^ 53 * 2 powi e"
    unfolding x_def by (intro mult_strict_right_mono) simp_all
  also have "\<dots> = 2 powi (e + 53)" by (simp add: two_powi_split)
  finally have "2 powi \<lfloor>log 2 x\<rfloor> < (2::real) powi (e + 53)"
    using binade(1)[OF x] by linarith
  then have "\<lfloor>log 2 x\<rfloor> < e + 53" by (rule two_powi_less_imp)
  then have u: "u \<le> e" using e x by (simp add: u_def ulp_exponent_def)
  have split: "(2::real) powi e = 2 powi (e - u) * 2 powi u"
    using two_powi_split[of "e - u" u] by simp
  have nn: "(2::real) powi (e - u) = of_int (2 ^ nat (e - u))"
    using u by (simp add: power_int_def)
  have xs: "x = of_int (m * 2 ^ nat (e - u)) * 2 powi u"
    unfolding x_def by (subst split) (simp add: nn)
  have "x / 2 powi u = of_int (m * 2 ^ nat (e - u))"
    by (subst xs) simp
  then have "round_half_even (x / 2 powi u) = m * 2 ^ nat (e - u)"
    by (simp only: rhe_int)
  then have "nearest x = of_int (m * 2 ^ nat (e - u)) * 2 powi u"
    unfolding nearest_pos_eq[OF x] u_def by simp
  then have "nearest x = x" using xs by simp
  then show ?thesis unfolding x_def .
qed

lemma nearest_representable: "representable x \<Longrightarrow> nearest x = x"
proof -
  assume "representable x"
  then obtain m e where x: "x = of_int m * 2 powi e" and m: "\<bar>m\<bar> < 2 ^ 53" and e: "- 1074 \<le> e"
    unfolding representable_def by blast
  consider "0 < m" | "m = 0" | "m < 0" by linarith
  then show ?thesis
  proof cases
    case 1
    then show ?thesis unfolding x using m e by (intro nearest_fixed_pos) simp_all
  next
    case 2
    then show ?thesis unfolding x by simp
  next
    case 3
    then have "nearest (of_int (- m) * 2 powi e) = of_int (- m) * 2 powi e"
      using m e by (intro nearest_fixed_pos) simp_all
    then have "nearest (- x) = - x" unfolding x by simp
    then show ?thesis by (simp add: nearest_minus)
  qed
qed

lemma representable_minus: "representable x \<Longrightarrow> representable (- x)"
proof -
  assume "representable x"
  then obtain m e where "x = of_int m * 2 powi e" "\<bar>m\<bar> < 2 ^ 53" "- 1074 \<le> e"
    unfolding representable_def by blast
  then have "- x = of_int (- m) * 2 powi e \<and> \<bar>- m\<bar> < 2 ^ 53 \<and> - 1074 \<le> e" by simp
  then show ?thesis unfolding representable_def by blast
qed

lemma representable_double: "representable x \<Longrightarrow> representable (2 * x)"
proof -
  assume "representable x"
  then obtain m e where "x = of_int m * 2 powi e" "\<bar>m\<bar> < 2 ^ 53" "- 1074 \<le> e"
    unfolding representable_def by blast
  then have "2 * x = of_int m * 2 powi (e + 1) \<and> \<bar>m\<bar> < 2 ^ 53 \<and> - 1074 \<le> e + 1"
    by (simp add: two_powi_split)
  then show ?thesis unfolding representable_def by blast
qed

lemma representable_int: "\<bar>m\<bar> < 2 ^ 53 \<Longrightarrow> representable (of_int m)"
  unfolding representable_def by (intro exI[of _ m] exI[of _ 0]) simp

lemma representable_dyadic:
  assumes "\<bar>m\<bar> < 2 ^ 53" and "k \<le> 1074"
  shows "representable (of_int m / 2 ^ k)"
proof -
  have "of_int m / 2 ^ k = of_int m * (2::real) powi (- int k)"
    by (simp add: power_int_minus field_simps)
  then show ?thesis
    unfolding representable_def using assms
    by (intro exI[of _ m] exI[of _ "- int k"]) simp
qed

lemma representable_zero [simp]: "representable 0"
  using representable_int[of 0] by simp

lemma carry_eq:
  assumes x: "0 < x" and T: "round_half_even (x / 2 powi ulp_exponent x) = 2 ^ 53"
  shows "nearest x = of_int (2 ^ 52) * 2 powi (ulp_exponent x + 1)"
  unfolding nearest_pos_eq[OF x] T by (simp add: two_powi_split)

lemma scaled_round_bounds:
  assumes x: "0 < x"
  shows "round_half_even (x / 2 powi ulp_exponent x) \<le> 2 ^ 53" "0 \<le> round_half_even (x / 2 powi ulp_exponent x)"
proof -
  have "round_half_even (x / 2 powi ulp_exponent x) \<le> round_half_even (2 ^ 53)"
    using scaled_upper[OF x] by (intro rhe_mono) simp
  moreover have "round_half_even (2 ^ 53) = 2 ^ 53" using rhe_int[of "2 ^ 53"] by simp
  ultimately show "round_half_even (x / 2 powi ulp_exponent x) \<le> 2 ^ 53" by simp
  show "0 \<le> round_half_even (x / 2 powi ulp_exponent x)" using x by (intro rhe_nonneg) simp
qed

lemma representableI: "x = of_int m * 2 powi e \<Longrightarrow> \<bar>m\<bar> < 2 ^ 53 \<Longrightarrow> - 1074 \<le> e \<Longrightarrow> representable x"
  unfolding representable_def by blast

lemma representable_nearest_pos:
  assumes x: "0 < x"
  shows "representable (nearest x)"
proof -
  define u where "u = ulp_exponent x"
  define M where "M = round_half_even (x / 2 powi ulp_exponent x)"
  have u: "- 1074 \<le> u" by (simp add: u_def ulp_exponent_def)
  have M: "M \<le> 2 ^ 53" and M0: "0 \<le> M" unfolding M_def using scaled_round_bounds[OF x] by blast+
  show ?thesis
  proof (cases "M = 2 ^ 53")
    case True
    have e: "nearest x = of_int (2 ^ 52) * 2 powi (u + 1)"
      unfolding u_def using carry_eq[OF x True[unfolded M_def]] .
    have b: "\<bar>2 ^ 52 :: int\<bar> < 2 ^ 53" by simp
    have c: "- 1074 \<le> u + 1" using u by linarith
    show ?thesis using representableI[OF e b c] .
  next
    case False
    have e: "nearest x = of_int M * 2 powi u"
      unfolding u_def M_def by (rule nearest_pos_eq[OF x])
    have b: "\<bar>M\<bar> < 2 ^ 53" using M M0 False by linarith
    show ?thesis using representableI[OF e b u] .
  qed
qed

lemma representable_nearest: "representable (nearest x)"
proof -
  consider "0 < x" | "x = 0" | "x < 0" by linarith
  then show ?thesis
  proof cases
    case 1 then show ?thesis by (rule representable_nearest_pos)
  next
    case 2 then show ?thesis by (simp add: nearest_zero representable_zero)
  next
    case 3
    then have "representable (nearest (- x))" by (intro representable_nearest_pos) simp
    then have "representable (- nearest x)" by (simp only: nearest_minus)
    then have "representable (- (- nearest x))" by (rule representable_minus)
    then show ?thesis by simp
  qed
qed

lemma nearest_idem: "nearest (nearest x) = nearest x"
  by (rule nearest_representable[OF representable_nearest])

lemma representable_grid:
  "representable x \<Longrightarrow> \<exists>k. x = of_int k * 2 powi (- 1074)"
proof -
  assume "representable x"
  then obtain m e where x: "x = of_int m * 2 powi e" and e: "- 1074 \<le> e"
    unfolding representable_def by blast
  have "(2::real) powi e = 2 powi (e + 1074) * 2 powi (- 1074)"
    using two_powi_split[of "e + 1074" "- 1074"] by simp
  also have "(2::real) powi (e + 1074) = of_int (2 ^ nat (e + 1074))"
    using e by (simp add: power_int_def)
  finally have "x = of_int (m * 2 ^ nat (e + 1074)) * 2 powi (- 1074)"
    unfolding x by simp
  then show ?thesis by blast
qed

lemma representable_gap:
  assumes "representable x" and "representable y" and "x < y"
  shows "2 powi (- 1074) \<le> y - x"
proof -
  obtain a where a: "x = of_int a * 2 powi (- 1074)"
    using representable_grid[OF assms(1)] by blast
  obtain b where b: "y = of_int b * 2 powi (- 1074)"
    using representable_grid[OF assms(2)] by blast
  have g: "0 < (2::real) powi (- 1074)" by simp
  have "real_of_int a < real_of_int b"
    using assms(3) g unfolding a b by (simp only: mult_less_cancel_right_pos)
  then have "a + 1 \<le> b" by simp
  then have "real_of_int a + 1 \<le> real_of_int b" by linarith
  then have "(real_of_int a + 1) * 2 powi (- 1074) \<le> real_of_int b * 2 powi (- 1074)"
    using g by (simp only: mult_le_cancel_right_pos)
  then show ?thesis unfolding a b by (simp add: algebra_simps)
qed

lemma nearest_tiny: "2 powi (- 1074) \<le> z \<Longrightarrow> 2 powi (- 1074) \<le> nearest z"
proof -
  assume "2 powi (- 1074) \<le> z"
  then have "nearest (2 powi (- 1074)) \<le> nearest z" by (rule nearest_mono)
  moreover have "nearest (of_int 1 * 2 powi (- 1074)) = of_int 1 * 2 powi (- 1074)"
    by (rule nearest_fixed_pos) simp_all
  ultimately show ?thesis by simp
qed

lemma nearest_between:
  assumes "a \<le> x" and "x \<le> b" and "representable a" and "representable b"
  shows "a \<le> nearest x" and "nearest x \<le> b"
  using nearest_mono[OF assms(1)] nearest_mono[OF assms(2)]
    nearest_representable[OF assms(3)] nearest_representable[OF assms(4)]
  by simp_all

section \<open>Comparisons\<close>

lemma zero_of_props [simp]:
  "is_finite (zero_of s)" "val (zero_of s) = 0" "is_zero (zero_of s)" "zero_of s \<noteq> NaN"
  "signbit (zero_of s) = s"
  by (auto simp: zero_of_def)

lemma is_zero_val: "is_finite x \<Longrightarrow> is_zero x = (val x = 0)"
  by (cases x) auto

lemma js_lt_finite: "is_finite x \<Longrightarrow> is_finite y \<Longrightarrow> js_lt x y = (val x < val y)"
  by (cases x; cases y) auto

lemma js_eq_finite: "is_finite x \<Longrightarrow> is_finite y \<Longrightarrow> js_eq x y = (val x = val y)"
  by (cases x; cases y) (auto simp: js_eq_def)

lemma js_le_finite: "is_finite x \<Longrightarrow> is_finite y \<Longrightarrow> js_le x y = (val x \<le> val y)"
  by (auto simp: js_le_def js_lt_finite js_eq_finite)

lemma js_le_iff:
  "js_le x y \<longleftrightarrow>
     x \<noteq> NaN \<and> y \<noteq> NaN
     \<and> (x = NegInf \<or> y = PosInf \<or> (is_finite x \<and> is_finite y \<and> val x \<le> val y))"
  by (cases x; cases y) (auto simp: js_le_def js_eq_def)

lemma js_lt_iff:
  "js_lt x y \<longleftrightarrow>
     x \<noteq> NaN \<and> y \<noteq> NaN
     \<and> ((x = NegInf \<and> y \<noteq> NegInf) \<or> (y = PosInf \<and> x \<noteq> PosInf)
        \<or> (is_finite x \<and> is_finite y \<and> val x < val y))"
  by (cases x; cases y) auto

lemma js_le_trans: "js_le x y \<Longrightarrow> js_le y z \<Longrightarrow> js_le x z"
  unfolding js_le_iff by (cases y) auto

lemma js_le_not_lt: "js_le x y \<Longrightarrow> \<not> js_lt y x"
  unfolding js_le_iff js_lt_iff by (cases x; cases y) auto

lemma js_lt_imp_le: "js_lt x y \<Longrightarrow> js_le x y"
  by (simp add: js_le_def)

lemma js_le_antisym_eq: "js_le x y \<Longrightarrow> \<not> js_lt x y \<Longrightarrow> js_eq x y \<and> js_le y x"
  by (auto simp: js_le_def js_eq_def)

section \<open>The Number value of a real\<close>

lemma threshold_pos [simp]: "0 < overflow_threshold"
  by (simp add: overflow_threshold_def)

lemma number_of_not_NaN [simp]: "number_of s x \<noteq> NaN"
  by (simp add: number_of_def Let_def zero_of_def)

lemma number_of_zero [simp]: "number_of s 0 = zero_of s"
  using threshold_pos by (simp add: number_of_def Let_def del: threshold_pos)

lemma number_of_mono: "x \<le> y \<Longrightarrow> js_le (number_of s x) (number_of t y)"
proof -
  assume "x \<le> y"
  then have n: "nearest x \<le> nearest y" by (rule nearest_mono)
  define a where "a = nearest x"
  define b where "b = nearest y"
  define T where "T = overflow_threshold"
  have T: "0 < T" by (simp add: T_def)
  show ?thesis
    unfolding number_of_def Let_def a_def[symmetric] b_def[symmetric] T_def[symmetric] js_le_iff
    using n[folded a_def b_def] T by (auto simp: zero_of_def)
qed

lemma number_of_finite_iff:
  "is_finite (number_of s x) \<longleftrightarrow> - overflow_threshold < nearest x \<and> nearest x < overflow_threshold"
  using threshold_pos by (auto simp: number_of_def Let_def zero_of_def simp del: threshold_pos)

lemma number_of_val:
  "is_finite (number_of s x) \<Longrightarrow> val (number_of s x) = nearest x"
  by (auto simp: number_of_def Let_def zero_of_def split: if_splits)

lemma number_of_PosInf_iff: "number_of s x = PosInf \<longleftrightarrow> overflow_threshold \<le> nearest x"
  by (auto simp: number_of_def Let_def zero_of_def)

lemma number_of_NegInf_iff: "number_of s x = NegInf \<longleftrightarrow> nearest x \<le> - overflow_threshold"
  using threshold_pos by (auto simp: number_of_def Let_def zero_of_def simp del: threshold_pos)

lemma number_of_nonneg: "0 \<le> x \<Longrightarrow> js_le (Fin 0) (number_of s x)"
  using number_of_mono[of 0 x False s] by (simp add: zero_of_def)

lemma number_of_nonpos: "x \<le> 0 \<Longrightarrow> js_le (number_of s x) (Fin 0)"
  using number_of_mono[of x 0 s False] by (simp add: zero_of_def)

lemma number_of_representable: "is_finite (number_of s x) \<Longrightarrow> representable (val (number_of s x))"
  by (simp add: number_of_val representable_nearest)

lemma number_of_enclosed:
  assumes "a \<le> x" and "x \<le> b" and "representable a" and "representable b"
    and "0 < a" and "b < overflow_threshold"
  shows "number_of s x = Fin (nearest x)" and "a \<le> nearest x" and "nearest x \<le> b"
proof -
  show a: "a \<le> nearest x" and b: "nearest x \<le> b"
    using nearest_between[OF assms(1-4)] by blast+
  show "number_of s x = Fin (nearest x)"
    using a b assms(5,6) threshold_pos
    by (auto simp: number_of_def Let_def simp del: threshold_pos)
qed

lemma number_of_encl:
  assumes "a \<le> x" and "x \<le> b" and "representable a" and "representable b"
    and "0 < a" and "b < overflow_threshold"
  shows "is_finite (number_of s x)" and "a \<le> val (number_of s x)"
    and "val (number_of s x) \<le> b"
  using number_of_enclosed[OF assms] by simp_all

lemma below_threshold: "x \<le> 2 ^ 62 \<Longrightarrow> x < overflow_threshold"
proof -
  assume "x \<le> 2 ^ 62"
  also have "(2::real) ^ 62 < 2 ^ 1024" by (rule power_strict_increasing) simp_all
  finally show ?thesis by (simp only: overflow_threshold_def)
qed

lemma number_of_exact:
  assumes "representable x" and "0 < x" and "x < overflow_threshold"
  shows "number_of s x = Fin x"
  using number_of_enclosed(1)[of x x x s] assms nearest_representable[OF assms(1)] by simp

section \<open>Operations with a positive constant\<close>

lemma js_mul_const:
  assumes "0 < k"
  shows "is_finite x \<Longrightarrow> js_mul x (Fin k) = number_of (signbit x) (val x * k)"
    and "js_mul PosInf (Fin k) = PosInf"
    and "js_mul NegInf (Fin k) = NegInf"
  using assms by (cases x; auto simp: js_mul_def inf_of_def)+

lemma js_div_const:
  assumes "0 < k"
  shows "is_finite x \<Longrightarrow> js_div x (Fin k) = number_of (signbit x) (val x / k)"
    and "js_div PosInf (Fin k) = PosInf"
    and "js_div NegInf (Fin k) = NegInf"
  using assms by (cases x; auto simp: js_div_def inf_of_def)+

lemma NaN_propagates [simp]:
  "js_mul x NaN = NaN" "js_mul NaN x = NaN" "js_div NaN x = NaN" "js_div x NaN = NaN"
  "js_add NaN x = NaN" "js_add x NaN = NaN" "js_sub NaN x = NaN" "js_sub x NaN = NaN"
  by (simp_all add: js_mul_def js_div_def js_add_def js_sub_def)

lemma finite_round:
  "is_finite x \<Longrightarrow>
   is_finite (Math_round x) \<and> val (Math_round x) = of_int \<lfloor>val x + 1/2\<rfloor>"
  by (cases x) (auto simp: floor_eq_iff)

lemma mono_op:
  assumes inf: "f PosInf = PosInf" "f NegInf = NegInf"
    and fin: "\<And>x. is_finite x \<Longrightarrow> f x \<noteq> NaN"
    and mono: "\<And>x y. is_finite x \<Longrightarrow> is_finite y \<Longrightarrow> val x \<le> val y \<Longrightarrow> js_le (f x) (f y)"
    and le: "js_le x y"
  shows "js_le (f x) (f y)"
proof -
  have n: "z \<noteq> NaN \<Longrightarrow> f z \<noteq> NaN" for z
    using inf fin[of z] by (cases z) auto
  from le have x: "x \<noteq> NaN" and y: "y \<noteq> NaN"
    and c: "x = NegInf \<or> y = PosInf \<or> (is_finite x \<and> is_finite y \<and> val x \<le> val y)"
    unfolding js_le_iff by blast+
  from c show ?thesis
  proof (elim disjE)
    assume "x = NegInf"
    then show ?thesis using n[OF y] inf by (simp add: js_le_iff)
  next
    assume "y = PosInf"
    then show ?thesis using n[OF x] inf by (simp add: js_le_iff)
  next
    assume "is_finite x \<and> is_finite y \<and> val x \<le> val y"
    then show ?thesis using mono by blast
  qed
qed

lemma js_mul_mono:
  assumes k: "0 < k" and le: "js_le x y"
  shows "js_le (js_mul x (Fin k)) (js_mul y (Fin k))"
proof (rule mono_op[where f = "\<lambda>z. js_mul z (Fin k)", OF _ _ _ _ le])
  show "js_mul PosInf (Fin k) = PosInf" "js_mul NegInf (Fin k) = NegInf"
    using js_mul_const[OF k] by blast+
  show "js_mul z (Fin k) \<noteq> NaN" if "is_finite z" for z
    using js_mul_const(1)[OF k that] by simp
  show "js_le (js_mul a (Fin k)) (js_mul b (Fin k))"
    if "is_finite a" "is_finite b" "val a \<le> val b" for a b
  proof -
    have "val a * k \<le> val b * k" using that(3) k by simp
    then show ?thesis
      unfolding js_mul_const(1)[OF k that(1)] js_mul_const(1)[OF k that(2)]
      by (rule number_of_mono)
  qed
qed

lemma js_div_mono:
  assumes k: "0 < k" and le: "js_le x y"
  shows "js_le (js_div x (Fin k)) (js_div y (Fin k))"
proof (rule mono_op[where f = "\<lambda>z. js_div z (Fin k)", OF _ _ _ _ le])
  show "js_div PosInf (Fin k) = PosInf" "js_div NegInf (Fin k) = NegInf"
    using js_div_const[OF k] by blast+
  show "js_div z (Fin k) \<noteq> NaN" if "is_finite z" for z
    using js_div_const(1)[OF k that] by simp
  show "js_le (js_div a (Fin k)) (js_div b (Fin k))"
    if "is_finite a" "is_finite b" "val a \<le> val b" for a b
  proof -
    have "val a / k \<le> val b / k" using that(3) k by (simp add: divide_right_mono)
    then show ?thesis
      unfolding js_div_const(1)[OF k that(1)] js_div_const(1)[OF k that(2)]
      by (rule number_of_mono)
  qed
qed

lemma Math_round_mono:
  assumes le: "js_le x y"
  shows "js_le (Math_round x) (Math_round y)"
proof (rule mono_op[where f = Math_round, OF _ _ _ _ le])
  show "Math_round PosInf = PosInf" "Math_round NegInf = NegInf" by simp_all
  show "Math_round z \<noteq> NaN" if "is_finite z" for z
    using finite_round[OF that] by auto
  show "js_le (Math_round a) (Math_round b)"
    if "is_finite a" "is_finite b" "val a \<le> val b" for a b
  proof -
    have "\<lfloor>val a + 1/2\<rfloor> \<le> \<lfloor>val b + 1/2\<rfloor>"
      using that(3) by (intro floor_mono) simp
    then show ?thesis
      using finite_round[OF that(1)] finite_round[OF that(2)] by (simp add: js_le_finite)
  qed
qed

lemma round2_mono: "js_le x y \<Longrightarrow> js_le (round2 x) (round2 y)"
  unfolding round2_def
  by (intro js_div_mono Math_round_mono js_mul_mono) simp_all

lemma round2_special [simp]:
  "round2 NaN = NaN" "round2 PosInf = PosInf" "round2 NegInf = NegInf"
  "round2 (Fin 0) = Fin 0" "round2 NegZero = NegZero"
  by (simp_all add: round2_def js_mul_const js_div_const zero_of_def)

lemma round2_nonneg: "js_le (Fin 0) x \<Longrightarrow> js_le (Fin 0) (round2 x)"
  using round2_mono[of "Fin 0" x] by simp

lemma round2_nonpos: "js_le x (Fin 0) \<Longrightarrow> js_le (round2 x) (Fin 0)"
  using round2_mono[of x "Fin 0"] by simp

lemma round2_NaN_iff: "round2 x = NaN \<longleftrightarrow> x = NaN"
proof
  assume r: "round2 x = NaN"
  show "x = NaN"
  proof (rule ccontr)
    assume "x \<noteq> NaN"
    then have "js_le x x" by (cases x) (auto simp: js_le_iff)
    then have "js_le (round2 x) (round2 x)" by (rule round2_mono)
    then show False using r by (simp add: js_le_iff)
  qed
qed simp

text \<open>What a finite result of the rounding idiom is.\<close>

lemma js_mul_finite_val:
  assumes k: "0 < k" and f: "is_finite (js_mul x (Fin k))"
  shows "is_finite x" and "val (js_mul x (Fin k)) = nearest (val x * k)"
proof -
  show x: "is_finite x"
    using f js_mul_const(2,3)[OF k] by (cases x) auto
  show "val (js_mul x (Fin k)) = nearest (val x * k)"
    using f unfolding js_mul_const(1)[OF k x] by (rule number_of_val)
qed

lemma js_div_finite_val:
  assumes k: "0 < k" and f: "is_finite (js_div x (Fin k))"
  shows "is_finite x" and "val (js_div x (Fin k)) = nearest (val x / k)"
proof -
  show x: "is_finite x"
    using f js_div_const(2,3)[OF k] by (cases x) auto
  show "val (js_div x (Fin k)) = nearest (val x / k)"
    using f unfolding js_div_const(1)[OF k x] by (rule number_of_val)
qed

lemma Math_round_finite: "is_finite (Math_round x) \<Longrightarrow> is_finite x"
  by (cases x) auto

lemma round2_finite_val:
  assumes f: "is_finite (round2 x)"
  shows "is_finite x"
    and "val (round2 x) = nearest (of_int \<lfloor>nearest (val x * 100) + 1/2\<rfloor> / 100)"
proof -
  have h: "(0::real) < 100" by simp
  have r: "is_finite (Math_round (js_mul x (Fin 100)))"
    using js_div_finite_val(1)[OF h f[unfolded round2_def]] .
  have m: "is_finite (js_mul x (Fin 100))"
    using Math_round_finite[OF r] .
  show "is_finite x"
    using js_mul_finite_val(1)[OF h m] .
  have "val (round2 x) = nearest (val (Math_round (js_mul x (Fin 100))) / 100)"
    using js_div_finite_val(2)[OF h f[unfolded round2_def]] by (simp only: round2_def)
  also have "val (Math_round (js_mul x (Fin 100))) = of_int \<lfloor>val (js_mul x (Fin 100)) + 1/2\<rfloor>"
    using finite_round[OF m] by blast
  also have "val (js_mul x (Fin 100)) = nearest (val x * 100)"
    using js_mul_finite_val(2)[OF h m] .
  finally show "val (round2 x) = nearest (of_int \<lfloor>nearest (val x * 100) + 1/2\<rfloor> / 100)" .
qed

lemma round2_representable: "is_finite (round2 x) \<Longrightarrow> representable (val (round2 x))"
  using round2_finite_val(2)[of x] by (simp add: representable_nearest)

section \<open>The sign of a difference\<close>

lemma number_of_pos_iff: "js_lt (Fin 0) (number_of s r) \<longleftrightarrow> 0 < nearest r"
  using threshold_pos
  by (auto simp: number_of_def Let_def zero_of_def simp del: threshold_pos)

lemma js_sub_finite:
  assumes "is_finite x" and "is_finite y"
  shows "js_sub x y =
     (if is_zero x \<and> is_zero y then zero_of (signbit x \<and> \<not> signbit y)
      else number_of (val x - val y < 0) (val x - val y))"
  using assms by (cases x; cases y) (auto simp: js_sub_def js_add_def zero_of_def)

lemma nearest_pos_of_gap:
  assumes "representable x" and "representable y" and "y < x"
  shows "0 < nearest (x - y)"
proof -
  have "2 powi (- 1074) \<le> x - y"
    using representable_gap[OF assms(2,1,3)] .
  then have "2 powi (- 1074) \<le> nearest (x - y)" by (rule nearest_tiny)
  moreover have "(0::real) < 2 powi (- 1074)" by simp
  ultimately show ?thesis by linarith
qed

lemma nearest_nonpos: "x \<le> 0 \<Longrightarrow> nearest x \<le> 0"
  using nearest_mono[of x 0] by simp

lemma cmp_finite:
  assumes fx: "is_finite x" and fy: "is_finite y"
    and rx: "representable (val x)" and ry: "representable (val y)"
  shows "js_gt (js_sub x y) (Fin 0) = (val y < val x)"
proof (cases "is_zero x \<and> is_zero y")
  case True
  then show ?thesis
    using fx fy by (simp add: js_sub_finite js_gt_def is_zero_val zero_of_def)
next
  case False
  have s: "js_sub x y = number_of (val x - val y < 0) (val x - val y)"
    unfolding js_sub_finite[OF fx fy] using False by (rule if_not_P)
  have "js_gt (js_sub x y) (Fin 0) = (0 < nearest (val x - val y))"
    unfolding s by (simp add: js_gt_def number_of_pos_iff)
  also have "\<dots> = (val y < val x)"
  proof (cases "val y < val x")
    case True
    then show ?thesis using nearest_pos_of_gap[OF rx ry True] by simp
  next
    case False
    then have "nearest (val x - val y) \<le> 0" by (intro nearest_nonpos) simp
    with False show ?thesis by simp
  qed
  finally show ?thesis .
qed

lemma cmp_emissions:
  assumes x: "x = PosInf \<or> (is_finite x \<and> representable (val x))"
    and y: "y = PosInf \<or> (is_finite y \<and> representable (val y))"
  shows "js_gt (js_sub x y) (Fin 0) = js_lt y x"
proof -
  consider "x = PosInf" "y = PosInf" | "x = PosInf" "is_finite y" | "is_finite x" "y = PosInf"
    | "is_finite x" "is_finite y" "representable (val x)" "representable (val y)"
    using x y by blast
  then show ?thesis
  proof cases
    case 1 then show ?thesis by (simp add: js_sub_def js_add_def js_gt_def)
  next
    case 2 then show ?thesis by (cases y) (auto simp: js_sub_def js_add_def js_gt_def)
  next
    case 3 then show ?thesis by (cases x) (auto simp: js_sub_def js_add_def js_gt_def)
  next
    case 4 then show ?thesis by (simp add: cmp_finite js_lt_finite)
  qed
qed

lemma js_sub_sign:
  shows "js_lt e b \<Longrightarrow> js_le (Fin 0) (js_sub b e)"
    and "\<not> js_lt e b \<Longrightarrow> js_sub b e = NaN \<or> js_le (js_sub b e) (Fin 0)"
proof -
  have fin: "js_le (Fin 0) (js_sub b e)" if "is_finite b" "is_finite e" "val e < val b"
  proof -
    have "\<not> (is_zero b \<and> is_zero e)" using that by (auto simp: is_zero_val)
    then have s: "js_sub b e = number_of (val b - val e < 0) (val b - val e)"
      unfolding js_sub_finite[OF that(1,2)] by (rule if_not_P)
    show ?thesis
      unfolding s using that(3) by (intro number_of_nonneg) simp
  qed
  have fin': "js_le (js_sub b e) (Fin 0)" if "is_finite b" "is_finite e" "\<not> val e < val b"
  proof (cases "is_zero b \<and> is_zero e")
    case True
    then show ?thesis by (simp add: js_sub_finite[OF that(1,2)] zero_of_def js_le_iff)
  next
    case False
    then have s: "js_sub b e = number_of (val b - val e < 0) (val b - val e)"
      unfolding js_sub_finite[OF that(1,2)] by (rule if_not_P)
    show ?thesis
      unfolding s using that(3) by (intro number_of_nonpos) simp
  qed
  show "js_lt e b \<Longrightarrow> js_le (Fin 0) (js_sub b e)"
    using fin by (cases e; cases b) (auto simp: js_sub_def js_add_def js_le_iff)
  show "\<not> js_lt e b \<Longrightarrow> js_sub b e = NaN \<or> js_le (js_sub b e) (Fin 0)"
    using fin' by (cases e; cases b) (auto simp: js_sub_def js_add_def js_le_iff)
qed

section \<open>Evaluation by enclosure\<close>

lemma finite_not_special:
  "is_finite x \<Longrightarrow> x \<noteq> NaN \<and> \<not> is_inf x"
  by (cases x) auto

lemma positive_is_Fin: "is_finite x \<Longrightarrow> 0 < val x \<Longrightarrow> x = Fin (val x)"
  by (cases x) auto

lemma num_encl:
  assumes "a \<le> r" and "r \<le> b" and "representable a" and "representable b"
    and "0 < a" and "b < overflow_threshold"
  shows "is_finite (num r)" and "a \<le> val (num r)" and "val (num r) \<le> b"
  using number_of_encl[OF assms, of "r < 0"] by (simp_all add: num_def)

lemma mul_encl:
  assumes x: "is_finite x" "a \<le> val x" "val x \<le> b"
    and y: "is_finite y" "c \<le> val y" "val y \<le> d"
    and pos: "0 < a" "0 < c"
    and lo: "lo \<le> a * c" "representable lo" "0 < lo"
    and hi: "b * d \<le> hi" "representable hi" "hi < overflow_threshold"
  shows "is_finite (js_mul x y)" and "lo \<le> val (js_mul x y)" and "val (js_mul x y) \<le> hi"
proof -
  have "a * c \<le> val x * val y"
    using x(2) y(2) pos by (intro mult_mono) simp_all
  then have p: "lo \<le> val x * val y" using lo(1) by linarith
  have "val x * val y \<le> b * d"
    using x(2,3) y(2,3) pos by (intro mult_mono) simp_all
  then have q: "val x * val y \<le> hi" using hi(1) by linarith
  have z: "\<not> is_zero x" "\<not> is_zero y"
    using x(1,2) y(1,2) pos by (simp_all add: is_zero_val)
  have m: "js_mul x y = number_of (signbit x \<noteq> signbit y) (val x * val y)"
    using finite_not_special[OF x(1)] finite_not_special[OF y(1)] by (simp add: js_mul_def)
  note e = number_of_encl[OF p q lo(2) hi(2) lo(3) hi(3), of "signbit x \<noteq> signbit y"]
  show "is_finite (js_mul x y)" "lo \<le> val (js_mul x y)" "val (js_mul x y) \<le> hi"
    unfolding m using e by simp_all
qed

lemma div_encl:
  assumes x: "is_finite x" "a \<le> val x" "val x \<le> b"
    and pos: "0 < a" "0 < k"
    and lo: "lo \<le> a / k" "representable lo" "0 < lo"
    and hi: "b / k \<le> hi" "representable hi" "hi < overflow_threshold"
  shows "is_finite (js_div x (Fin k))" and "lo \<le> val (js_div x (Fin k))"
    and "val (js_div x (Fin k)) \<le> hi"
proof -
  have "a / k \<le> val x / k" using x(2) pos by (simp add: divide_right_mono)
  then have p: "lo \<le> val x / k" using lo(1) by linarith
  have "val x / k \<le> b / k" using x(3) pos by (simp add: divide_right_mono)
  then have q: "val x / k \<le> hi" using hi(1) by linarith
  note e = number_of_encl[OF p q lo(2) hi(2) lo(3) hi(3), of "signbit x"]
  show "is_finite (js_div x (Fin k))" "lo \<le> val (js_div x (Fin k))"
    "val (js_div x (Fin k)) \<le> hi"
    unfolding js_div_const(1)[OF pos(2) x(1)] using e by simp_all
qed

lemma add_encl:
  assumes x: "is_finite x" "a \<le> val x" "val x \<le> b"
    and y: "is_finite y" "c \<le> val y" "val y \<le> d"
    and pos: "0 < a" "0 < c"
    and lo: "lo \<le> a + c" "representable lo" "0 < lo"
    and hi: "b + d \<le> hi" "representable hi" "hi < overflow_threshold"
  shows "is_finite (js_add x y)" and "lo \<le> val (js_add x y)" and "val (js_add x y) \<le> hi"
proof -
  have p: "lo \<le> val x + val y" using x(2) y(2) lo(1) by linarith
  have q: "val x + val y \<le> hi" using x(3) y(3) hi(1) by linarith
  have z: "\<not> is_zero x"
    using x(1,2) pos by (simp add: is_zero_val)
  have m: "js_add x y = number_of (val x + val y < 0) (val x + val y)"
    using finite_not_special[OF x(1)] finite_not_special[OF y(1)] z by (simp add: js_add_def)
  note e = number_of_encl[OF p q lo(2) hi(2) lo(3) hi(3), of "val x + val y < 0"]
  show "is_finite (js_add x y)" "lo \<le> val (js_add x y)" "val (js_add x y) \<le> hi"
    unfolding m using e by simp_all
qed

lemma sub_encl:
  assumes x: "is_finite x" "a \<le> val x" "val x \<le> b"
    and y: "is_finite y" "c \<le> val y" "val y \<le> d"
    and lo: "lo \<le> a - d" "representable lo" "0 < lo"
    and hi: "b - c \<le> hi" "representable hi" "hi < overflow_threshold"
  shows "is_finite (js_sub x y)" and "lo \<le> val (js_sub x y)" and "val (js_sub x y) \<le> hi"
proof -
  have p: "lo \<le> val x - val y" using x(2) y(3) lo(1) by linarith
  have q: "val x - val y \<le> hi" using x(3) y(2) hi(1) by linarith
  have "\<not> (is_zero x \<and> is_zero y)"
    using p lo(3) x(1) y(1) by (auto simp: is_zero_val)
  then have m: "js_sub x y = number_of (val x - val y < 0) (val x - val y)"
    unfolding js_sub_finite[OF x(1) y(1)] by (rule if_not_P)
  note e = number_of_encl[OF p q lo(2) hi(2) lo(3) hi(3), of "val x - val y < 0"]
  show "is_finite (js_sub x y)" "lo \<le> val (js_sub x y)" "val (js_sub x y) \<le> hi"
    unfolding m using e by simp_all
qed

lemma round_encl:
  assumes x: "is_finite x" "a \<le> val x" "val x \<le> b"
    and a: "0 \<le> a" "of_int n - 1/2 \<le> a" and b: "b < of_int n + 1/2"
    and nz: "x \<noteq> NegZero"
  shows "Math_round x = Fin (of_int n)"
proof -
  obtain r where r: "x = Fin r" using x(1) nz by (cases x) auto
  have "\<lfloor>r + 1/2\<rfloor> = n"
    using x(2,3) a b unfolding r by (intro floor_unique) simp_all
  moreover have "\<not> (- (1/2) \<le> r \<and> r < 0)" using x(2) a(1) unfolding r by simp
  ultimately show ?thesis unfolding r by simp
qed

lemma finite_pos_not_NegZero: "0 < a \<Longrightarrow> a \<le> val x \<Longrightarrow> x \<noteq> NegZero"
  by auto

lemma div_int_100: "0 < n \<Longrightarrow> js_div (Fin (of_int n)) (Fin 100) = num (of_int n / 100)"
  by (simp add: js_div_def num_def)

lemma num_int: "0 < n \<Longrightarrow> n < 2 ^ 53 \<Longrightarrow> num (of_int n) = Fin (of_int n)"
proof -
  assume n: "0 < n" "n < 2 ^ 53"
  have r: "representable (of_int n)" using n by (intro representable_int) simp
  have "real_of_int n < real_of_int (2 ^ 53)" using n(2) by (simp only: of_int_less_iff)
  then have "real_of_int n \<le> 2 ^ 62" by simp
  then have "real_of_int n < overflow_threshold" by (rule below_threshold)
  then show ?thesis
    unfolding num_def using number_of_exact[OF r, of "of_int n < (0::real)"] n(1) by simp
qed

lemma round2_encl:
  assumes x: "is_finite x" "a \<le> val x" "val x \<le> b"
    and a: "0 < a" "representable (a * 100)" "of_int n - 1/2 \<le> a * 100"
    and b: "representable (b * 100)" "b * 100 \<le> 2 ^ 62" "b * 100 < of_int n + 1/2"
    and n: "0 < n"
  shows "round2 x = num (of_int n / 100)"
proof -
  have f: "is_finite (Fin 100)" "(100::real) \<le> val (Fin 100)" "val (Fin 100) \<le> (100::real)"
    by simp_all
  have a0: "0 < a * 100" using a(1) by simp
  note m = mul_encl[OF x f a(1) _ order_refl a(2) a0 order_refl b(1) below_threshold[OF b(2)]]
  have m1: "is_finite (js_mul x (Fin 100))" and m2: "a * 100 \<le> val (js_mul x (Fin 100))"
    and m3: "val (js_mul x (Fin 100)) \<le> b * 100"
    using m by simp_all
  have nz: "js_mul x (Fin 100) \<noteq> NegZero"
    using a0 m2 by auto
  have "Math_round (js_mul x (Fin 100)) = Fin (of_int n)"
    using round_encl[OF m1 m2 m3 _ a(3) b(3) nz] a0 by simp
  then show ?thesis
    unfolding round2_def using div_int_100[OF n] by simp
qed

lemma round2_encl_zero:
  assumes x: "is_finite x" "a \<le> val x" "val x \<le> b"
    and a: "0 < a" "representable (a * 100)"
    and b: "representable (b * 100)" "b * 100 < 1/2"
  shows "round2 x = Fin 0"
proof -
  have f: "is_finite (Fin 100)" "(100::real) \<le> val (Fin 100)" "val (Fin 100) \<le> (100::real)"
    by simp_all
  have a0: "0 < a * 100" using a(1) by simp
  have b2: "b * 100 \<le> 2 ^ 62" using b(2) by simp
  note m = mul_encl[OF x f a(1) _ order_refl a(2) a0 order_refl b(1) below_threshold[OF b2]]
  have m1: "is_finite (js_mul x (Fin 100))" and m2: "a * 100 \<le> val (js_mul x (Fin 100))"
    and m3: "val (js_mul x (Fin 100)) \<le> b * 100"
    using m by simp_all
  have nz: "js_mul x (Fin 100) \<noteq> NegZero"
    using a0 m2 by auto
  have "Math_round (js_mul x (Fin 100)) = Fin (of_int 0)"
    using round_encl[OF m1 m2 m3 _ _ _ nz, of 0] a0 b(2) by simp
  then show ?thesis
    unfolding round2_def by (simp add: js_div_def zero_of_def)
qed

section \<open>Results that stay finite\<close>

lemma representable_power: "representable (2 ^ n)"
proof -
  have "(2::real) ^ n = of_int 1 * 2 powi int n" by simp
  then show ?thesis by (rule representableI) simp_all
qed

lemma power_below_threshold: "n < 1024 \<Longrightarrow> (2::real) ^ n < overflow_threshold"
  unfolding overflow_threshold_def by (rule power_strict_increasing) simp_all

lemma number_of_bounded:
  assumes x: "\<bar>x\<bar> \<le> 2 ^ n" and n: "n < 1024"
  shows "is_finite (number_of s x)" and "\<bar>val (number_of s x)\<bar> \<le> 2 ^ n"
proof -
  have r: "representable (2 ^ n)" "representable (- (2 ^ n))"
    using representable_power representable_minus by blast+
  have "- (2 ^ n) \<le> x" "x \<le> 2 ^ n" using x by linarith+
  then have b: "- (2 ^ n) \<le> nearest x" "nearest x \<le> 2 ^ n"
    using nearest_between[of "- (2 ^ n)" x "2 ^ n"] r by blast+
  show f: "is_finite (number_of s x)"
    unfolding number_of_finite_iff using b power_below_threshold[OF n] by linarith
  show "\<bar>val (number_of s x)\<bar> \<le> 2 ^ n"
    unfolding number_of_val[OF f] using b by linarith
qed

lemma js_mul_bounded:
  assumes x: "is_finite x" "\<bar>val x\<bar> \<le> 2 ^ n" and k: "0 < k" "k \<le> 2 ^ m" and n: "n + m < 1024"
  shows "is_finite (js_mul x (Fin k))" and "\<bar>val (js_mul x (Fin k))\<bar> \<le> 2 ^ (n + m)"
proof -
  have "\<bar>val x * k\<bar> = \<bar>val x\<bar> * k" using k(1) by (simp add: abs_mult)
  also have "\<dots> \<le> 2 ^ n * 2 ^ m" using x(2) k by (intro mult_mono) simp_all
  finally have b: "\<bar>val x * k\<bar> \<le> 2 ^ (n + m)" by (simp add: power_add)
  show "is_finite (js_mul x (Fin k))" "\<bar>val (js_mul x (Fin k))\<bar> \<le> 2 ^ (n + m)"
    unfolding js_mul_const(1)[OF k(1) x(1)] using number_of_bounded[OF b n] by blast+
qed

lemma js_div_bounded:
  assumes x: "is_finite x" "\<bar>val x\<bar> \<le> 2 ^ n" and k: "1 \<le> k" and n: "n < 1024"
  shows "is_finite (js_div x (Fin k))" and "\<bar>val (js_div x (Fin k))\<bar> \<le> 2 ^ n"
proof -
  have k0: "0 < k" using k by linarith
  have "\<bar>val x / k\<bar> = \<bar>val x\<bar> / k" using k0 by simp
  also have "\<dots> \<le> \<bar>val x\<bar> / 1" using k by (intro divide_left_mono) simp_all
  finally have b: "\<bar>val x / k\<bar> \<le> 2 ^ n" using x(2) by simp
  show "is_finite (js_div x (Fin k))" "\<bar>val (js_div x (Fin k))\<bar> \<le> 2 ^ n"
    unfolding js_div_const(1)[OF k0 x(1)] using number_of_bounded[OF b n] by blast+
qed

lemma Math_round_bounded:
  assumes x: "is_finite x" "\<bar>val x\<bar> \<le> 2 ^ n"
  shows "is_finite (Math_round x)" and "\<bar>val (Math_round x)\<bar> \<le> 2 ^ n"
proof -
  show "is_finite (Math_round x)" using finite_round[OF x(1)] by blast
  define k where "k = \<lfloor>val x + 1/2\<rfloor>"
  have v: "val (Math_round x) = of_int k" using finite_round[OF x(1)] by (simp add: k_def)
  have i: "(2::real) ^ n = of_int (2 ^ n)" by simp
  have "k \<le> \<lfloor>(2::real) ^ n + 1/2\<rfloor>"
    unfolding k_def using x(2) by (intro floor_mono) linarith
  moreover have "\<lfloor>(2::real) ^ n + 1/2\<rfloor> = 2 ^ n"
    unfolding i by (rule floor_unique) simp_all
  moreover have "\<lfloor>- ((2::real) ^ n) + 1/2\<rfloor> \<le> k"
    unfolding k_def using x(2) by (intro floor_mono) linarith
  moreover have "\<lfloor>- ((2::real) ^ n) + 1/2\<rfloor> = - (2 ^ n)"
    unfolding i by (rule floor_unique) simp_all
  ultimately have kb: "- (2 ^ n) \<le> k" "k \<le> 2 ^ n" by linarith+
  have a: "real_of_int k \<le> 2 ^ n" using kb(2) by simp
  have "real_of_int (- (2 ^ n)) \<le> real_of_int k" using kb(1) by (simp only: of_int_le_iff)
  moreover have "real_of_int (- (2 ^ n)) = - (2 ^ n)" by simp
  ultimately have b: "- (2 ^ n) \<le> real_of_int k" by (simp only:)
  show "\<bar>val (Math_round x)\<bar> \<le> 2 ^ n"
    unfolding v abs_le_iff using a b by linarith
qed

lemma round2_bounded:
  assumes x: "is_finite x" "\<bar>val x\<bar> \<le> 2 ^ n" and n: "n + 7 < 1024"
  shows "is_finite (round2 x)" and "\<bar>val (round2 x)\<bar> \<le> 2 ^ (n + 7)"
proof -
  have k: "(0::real) < 100" "(100::real) \<le> 2 ^ 7" "(1::real) \<le> 100" by simp_all
  note m = js_mul_bounded[OF x k(1,2) n]
  note r = Math_round_bounded[OF m]
  show "is_finite (round2 x)" "\<bar>val (round2 x)\<bar> \<le> 2 ^ (n + 7)"
    unfolding round2_def using js_div_bounded[OF r k(3) n] by blast+
qed

lemma max_price_finite:
  assumes e: "is_finite emissionKg" "\<bar>val emissionKg\<bar> \<le> 2 ^ 990"
  shows "is_finite (max_price (estimateCreditPrice (calculateCarbonCredits emissionKg)))"
proof -
  have d: "is_finite (js_div emissionKg (Fin 1000))" "\<bar>val (js_div emissionKg (Fin 1000))\<bar> \<le> 2 ^ 990"
    using js_div_bounded[OF e, of 1000] by simp_all
  have c: "is_finite (calculateCarbonCredits emissionKg)"
    "\<bar>val (calculateCarbonCredits emissionKg)\<bar> \<le> 2 ^ (990 + 7)"
    unfolding calculateCarbonCredits_def Let_def KG_PER_CREDIT_def
    using round2_bounded[OF d] by simp_all
  have k: "(0::real) < 150" "(150::real) \<le> 2 ^ 8" by simp_all
  have h: "is_finite (js_mul (calculateCarbonCredits emissionKg) (Fin 150))"
    "\<bar>val (js_mul (calculateCarbonCredits emissionKg) (Fin 150))\<bar> \<le> 2 ^ (990 + 7 + 8)"
    using js_mul_bounded[OF c k] by simp_all
  show ?thesis
    using round2_bounded(1)[OF h]
    by (simp add: estimateCreditPrice_def Let_def PRICE_MAX_BRL_def)
qed

lemma savedKg_finite:
  assumes e: "is_finite e" "\<bar>val e\<bar> \<le> 2 ^ 990" and b: "is_finite b" "\<bar>val b\<bar> \<le> 2 ^ 990"
  shows "is_finite (savedKg (calculateSavings e b))"
proof -
  have s: "is_finite (js_sub b e) \<and> \<bar>val (js_sub b e)\<bar> \<le> 2 ^ 991"
  proof (cases "is_zero b \<and> is_zero e")
    case True
    then show ?thesis by (simp add: js_sub_finite[OF b(1) e(1)])
  next
    case False
    then have m: "js_sub b e = number_of (val b - val e < 0) (val b - val e)"
      unfolding js_sub_finite[OF b(1) e(1)] by (rule if_not_P)
    have "\<bar>val b - val e\<bar> \<le> 2 ^ 990 + 2 ^ 990" using e(2) b(2) by linarith
    then have "\<bar>val b - val e\<bar> \<le> 2 ^ 991" by simp
    then show ?thesis unfolding m using number_of_bounded[of "val b - val e" 991] by simp
  qed
  show ?thesis
    using round2_bounded(1)[of "js_sub b e" 991] s by (simp add: calculateSavings_def Let_def)
qed

section \<open>Calculator.calculateEmission\<close>

lemma get_property_unconfigured:
  "\<not> configured m \<Longrightarrow> to_number (get_property EMISSION_FACTORS m) = NaN"
  by (auto simp: configured_def Object_keys_def get_property_def
        map_of_eq_None_iff[THEN iffD2] split: option.splits)

text \<open>
  C9. For every distance and every mode string that has no entry in the emission-factor
  table, \<open>calculateEmission\<close> returns NaN. The lookup yields \<open>undefined\<close>, or a member
  of \<open>Object.prototype\<close> for a name such as \<open>toString\<close>; either becomes NaN in the
  product, and nothing on the way can throw.
\<close>

theorem calculateEmission_unknown_mode:
  "\<not> configured m \<Longrightarrow> calculateEmission d m = NaN"
  by (simp add: calculateEmission_def get_property_unconfigured)

theorem calculateEmission_unknown_mode_witness:
  "\<not> configured (str ''plane'') \<and> calculateEmission (Fin 100) (str ''plane'') = NaN
   \<and> \<not> configured (str ''toString'')
   \<and> calculateEmission (Fin 100) (str ''toString'') = NaN"
proof -
  have a: "\<not> configured (str ''plane'')" and b: "\<not> configured (str ''toString'')"
    by (simp_all add: configured_def Object_keys_def EMISSION_FACTORS_def str_def)
  show ?thesis
    using a b calculateEmission_unknown_mode[OF a, of "Fin 100"]
      calculateEmission_unknown_mode[OF b, of "Fin 100"]
    by simp
qed

section \<open>The emission factors\<close>

lemma factor_values:
  "to_number (get_property EMISSION_FACTORS (str ''bicycle'')) = Fin 0"
  "to_number (get_property EMISSION_FACTORS (str ''car'')) = num (12/100)"
  "to_number (get_property EMISSION_FACTORS (str ''bus'')) = num (89/1000)"
  "to_number (get_property EMISSION_FACTORS (str ''truck'')) = num (96/100)"
  by (simp_all add: get_property_def EMISSION_FACTORS_def str_def)

lemma emission_values:
  "calculateEmission d (str ''bicycle'') = round2 (js_mul d (Fin 0))"
  "calculateEmission d (str ''car'') = round2 (js_mul d (num (12/100)))"
  "calculateEmission d (str ''bus'') = round2 (js_mul d (num (89/1000)))"
  "calculateEmission d (str ''truck'') = round2 (js_mul d (num (96/100)))"
  by (simp_all add: calculateEmission_def factor_values)

lemma dyadic: "\<bar>m\<bar> < 2 ^ 53 \<Longrightarrow> representable (of_int m / 2 ^ 20)"
  by (rule representable_dyadic) simp_all

lemma car_factor:
  "is_finite (num (12/100))" "125829 / 2 ^ 20 \<le> val (num (12/100))"
  "val (num (12/100)) \<le> 125830 / 2 ^ 20"
proof -
  have a: "representable (125829 / 2 ^ 20)" using dyadic[of 125829] by simp
  have b: "representable (125830 / 2 ^ 20)" using dyadic[of 125830] by simp
  have t: "(125830 / 2 ^ 20 :: real) < overflow_threshold" by (rule below_threshold) simp
  show "is_finite (num (12/100))" "125829 / 2 ^ 20 \<le> val (num (12/100))"
    "val (num (12/100)) \<le> 125830 / 2 ^ 20"
    using num_encl[OF _ _ a b _ t, of "12/100"] by simp_all
qed

lemma bus_factor:
  "is_finite (num (89/1000))" "93323 / 2 ^ 20 \<le> val (num (89/1000))"
  "val (num (89/1000)) \<le> 93324 / 2 ^ 20"
proof -
  have a: "representable (93323 / 2 ^ 20)" using dyadic[of 93323] by simp
  have b: "representable (93324 / 2 ^ 20)" using dyadic[of 93324] by simp
  have t: "(93324 / 2 ^ 20 :: real) < overflow_threshold" by (rule below_threshold) simp
  show "is_finite (num (89/1000))" "93323 / 2 ^ 20 \<le> val (num (89/1000))"
    "val (num (89/1000)) \<le> 93324 / 2 ^ 20"
    using num_encl[OF _ _ a b _ t, of "89/1000"] by simp_all
qed

lemma truck_factor:
  "is_finite (num (96/100))" "1006632 / 2 ^ 20 \<le> val (num (96/100))"
  "val (num (96/100)) \<le> 1006633 / 2 ^ 20"
proof -
  have a: "representable (1006632 / 2 ^ 20)" using dyadic[of 1006632] by simp
  have b: "representable (1006633 / 2 ^ 20)" using dyadic[of 1006633] by simp
  have t: "(1006633 / 2 ^ 20 :: real) < overflow_threshold" by (rule below_threshold) simp
  show "is_finite (num (96/100))" "1006632 / 2 ^ 20 \<le> val (num (96/100))"
    "val (num (96/100)) \<le> 1006633 / 2 ^ 20"
    using num_encl[OF _ _ a b _ t, of "96/100"] by simp_all
qed

lemma factor_order:
  "0 < val (num (89/1000))" "val (num (89/1000)) \<le> val (num (12/100))"
  "val (num (12/100)) \<le> val (num (96/100))"
  using car_factor(2,3) bus_factor(2,3) truck_factor(2,3) by simp_all

section \<open>Calculator.calculateAllModes\<close>

lemma calculateAllModes_unfold:
  "calculateAllModes d =
     Array_sort (\<lambda>a b. js_sub (emission a) (emission b))
       (map (mode_entry d (calculateEmission d (str ''car'')))
          [str ''bicycle'', str ''car'', str ''bus'', str ''truck''])"
  by (simp add: calculateAllModes_def Object_keys_def EMISSION_FACTORS_def Let_def)

lemma mode_entry_fields [simp]:
  "mode (mode_entry d ce m) = m" "emission (mode_entry d ce m) = calculateEmission d m"
  by (simp_all add: mode_entry_def Let_def)

lemma emission_mono:
  assumes r: "0 < r" and F: "is_finite F" "0 < val F" and G: "is_finite G" "val F \<le> val G"
  shows "js_le (Fin 0) (round2 (js_mul (Fin r) F))"
    and "js_le (round2 (js_mul (Fin r) F)) (round2 (js_mul (Fin r) G))"
proof -
  have f: "F = Fin (val F)" using F by (rule positive_is_Fin)
  have g0: "0 < val G" using F(2) G(2) by linarith
  have g: "G = Fin (val G)" using G(1) g0 by (rule positive_is_Fin)
  have mf: "js_mul (Fin r) F = number_of False (r * val F)"
    using js_mul_const(1)[OF F(2), of "Fin r"] r f by simp
  have mg: "js_mul (Fin r) G = number_of False (r * val G)"
    using js_mul_const(1)[OF g0, of "Fin r"] r g by simp
  have "0 \<le> r * val F" using r F(2) by simp
  then have "js_le (Fin 0) (js_mul (Fin r) F)"
    unfolding mf by (rule number_of_nonneg)
  then show "js_le (Fin 0) (round2 (js_mul (Fin r) F))" by (rule round2_nonneg)
  have "r * val F \<le> r * val G" using r G(2) by simp
  then have "js_le (js_mul (Fin r) F) (js_mul (Fin r) G)"
    unfolding mf mg by (rule number_of_mono)
  then show "js_le (round2 (js_mul (Fin r) F)) (round2 (js_mul (Fin r) G))"
    by (rule round2_mono)
qed

lemma emission_shape:
  assumes "js_le (Fin 0) (round2 x)"
  shows "round2 x = PosInf \<or> (is_finite (round2 x) \<and> representable (val (round2 x)))"
  using assms round2_representable[of x] unfolding js_le_iff by auto

lemma emission_positive:
  assumes "0 < r"
  shows "calculateEmission (Fin r) (str ''bicycle'') = Fin 0"
    and "js_le (Fin 0) (calculateEmission (Fin r) (str ''bus''))"
    and "js_le (calculateEmission (Fin r) (str ''bus'')) (calculateEmission (Fin r) (str ''car''))"
    and "js_le (calculateEmission (Fin r) (str ''car'')) (calculateEmission (Fin r) (str ''truck''))"
proof -
  have "js_mul (Fin r) (Fin 0) = Fin 0"
    using assms by (simp add: js_mul_def zero_of_def)
  then show "calculateEmission (Fin r) (str ''bicycle'') = Fin 0"
    by (simp add: emission_values)
  show "js_le (Fin 0) (calculateEmission (Fin r) (str ''bus''))"
    unfolding emission_values
    by (rule emission_mono(1)[OF assms bus_factor(1) factor_order(1) car_factor(1) factor_order(2)])
  show "js_le (calculateEmission (Fin r) (str ''bus'')) (calculateEmission (Fin r) (str ''car''))"
    unfolding emission_values
    by (rule emission_mono(2)[OF assms bus_factor(1) factor_order(1) car_factor(1) factor_order(2)])
  have c: "0 < val (num (12/100))" using factor_order(1,2) by linarith
  show "js_le (calculateEmission (Fin r) (str ''car'')) (calculateEmission (Fin r) (str ''truck''))"
    unfolding emission_values
    by (rule emission_mono(2)[OF assms car_factor(1) c truck_factor(1) factor_order(3)])
qed

lemma sort4:
  fixes B C S T :: comparison
  assumes g: "\<And>X. X \<in> {B, C, S, T} \<Longrightarrow>
        emission X = PosInf \<or> (is_finite (emission X) \<and> representable (val (emission X)))"
    and le: "js_le (emission B) (emission S)" "js_le (emission S) (emission C)"
      "js_le (emission C) (emission T)"
  shows "Array_sort (\<lambda>a b. js_sub (emission a) (emission b)) [B, C, S, T] =
           (if js_lt (emission S) (emission C) then [B, S, C, T] else [B, C, S, T])"
proof -
  have cmp: "js_gt (js_sub (emission X) (emission Y)) (Fin 0) = js_lt (emission Y) (emission X)"
    if "X \<in> {B, C, S, T}" "Y \<in> {B, C, S, T}" for X Y
    using cmp_emissions[OF g[OF that(1)] g[OF that(2)]] .
  have n: "\<not> js_lt (emission T) (emission S)" "\<not> js_lt (emission T) (emission C)"
    "\<not> js_lt (emission S) (emission B)" "\<not> js_lt (emission C) (emission B)"
    using js_le_not_lt[OF js_le_trans[OF le(2,3)]] js_le_not_lt[OF le(3)]
      js_le_not_lt[OF le(1)] js_le_not_lt[OF js_le_trans[OF le(1,2)]] by simp_all
  show ?thesis
    by (simp add: Array_sort_def cmp n)
qed

lemma mode_indices:
  "mode_index (str ''bicycle'') = 0" "mode_index (str ''car'') = 1"
  "mode_index (str ''bus'') = 2" "mode_index (str ''truck'') = 3"
  by (simp_all add: mode_index_def Object_keys_def EMISSION_FACTORS_def str_def)

lemma zero_factors:
  "zero_factor (str ''bicycle'')" "\<not> zero_factor (str ''car'')"
  "\<not> zero_factor (str ''bus'')" "\<not> zero_factor (str ''truck'')"
proof -
  have p: "0 < val (num (12/100))" "0 < val (num (89/1000))" "0 < val (num (96/100))"
    using factor_order by linarith+
  show "zero_factor (str ''bicycle'')" by (simp add: zero_factor_def factor_values)
  show "\<not> zero_factor (str ''car'')" "\<not> zero_factor (str ''bus'')" "\<not> zero_factor (str ''truck'')"
    unfolding zero_factor_def factor_values
    using p car_factor(1) bus_factor(1) truck_factor(1) by (simp_all add: is_zero_val)
qed

text \<open>The list that \<open>calculateAllModes\<close> returns for a finite distance \<open>> 0\<close>.\<close>

lemma calculateAllModes_positive:
  assumes r: "0 < r"
  shows "calculateAllModes (Fin r) =
      (if js_lt (calculateEmission (Fin r) (str ''bus'')) (calculateEmission (Fin r) (str ''car''))
       then map (mode_entry (Fin r) (calculateEmission (Fin r) (str ''car'')))
              [str ''bicycle'', str ''bus'', str ''car'', str ''truck'']
       else map (mode_entry (Fin r) (calculateEmission (Fin r) (str ''car'')))
              [str ''bicycle'', str ''car'', str ''bus'', str ''truck''])"
proof -
  note e = emission_positive[OF r]
  let ?E = "mode_entry (Fin r) (calculateEmission (Fin r) (str ''car''))"
  have c0: "js_le (Fin 0) (calculateEmission (Fin r) (str ''car''))"
    using js_le_trans[OF e(2,3)] .
  have t0: "js_le (Fin 0) (calculateEmission (Fin r) (str ''truck''))"
    using js_le_trans[OF c0 e(4)] .
  have b0: "js_le (Fin 0) (calculateEmission (Fin r) (str ''bicycle''))"
    unfolding e(1) by (simp add: js_le_iff)
  have shape: "calculateEmission (Fin r) m = PosInf
      \<or> (is_finite (calculateEmission (Fin r) m) \<and> representable (val (calculateEmission (Fin r) m)))"
    if "js_le (Fin 0) (calculateEmission (Fin r) m)" for m
    using that emission_shape unfolding calculateEmission_def Let_def by blast
  have g: "emission X = PosInf \<or> (is_finite (emission X) \<and> representable (val (emission X)))"
    if "X \<in> {?E (str ''bicycle''), ?E (str ''car''), ?E (str ''bus''), ?E (str ''truck'')}" for X
    using that shape[OF b0] shape[OF c0] shape[OF e(2)] shape[OF t0] by auto
  have "Array_sort (\<lambda>a b. js_sub (emission a) (emission b))
          [?E (str ''bicycle''), ?E (str ''car''), ?E (str ''bus''), ?E (str ''truck'')]
        = (if js_lt (emission (?E (str ''bus''))) (emission (?E (str ''car'')))
           then [?E (str ''bicycle''), ?E (str ''bus''), ?E (str ''car''), ?E (str ''truck'')]
           else [?E (str ''bicycle''), ?E (str ''car''), ?E (str ''bus''), ?E (str ''truck'')])"
  proof (rule sort4)
    fix X assume "X \<in> {?E (str ''bicycle''), ?E (str ''car''), ?E (str ''bus''), ?E (str ''truck'')}"
    then show "emission X = PosInf \<or> (is_finite (emission X) \<and> representable (val (emission X)))"
      by (rule g)
  next
    show "js_le (emission (?E (str ''bicycle''))) (emission (?E (str ''bus'')))"
      using e(2) by (simp add: e(1))
    show "js_le (emission (?E (str ''bus''))) (emission (?E (str ''car'')))"
      using e(3) by simp
    show "js_le (emission (?E (str ''car''))) (emission (?E (str ''truck'')))"
      using e(4) by simp
  qed
  then show ?thesis
    unfolding calculateAllModes_unfold by simp
qed

text \<open>
  C5, as amended. For every finite distance \<open>> 0\<close>, \<open>calculateAllModes\<close> returns its
  entries in ascending order of emission, the zero-factor mode (bicycle, emission 0)
  first, and entries of equal emission in the order in which the modes are enumerated.
  This holds in binary64 arithmetic, also when emissions overflow to \<open>Infinity\<close>.
\<close>

theorem calculateAllModes_ranked:
  assumes fd: "is_finite d" and pos: "js_gt d (Fin 0)"
  shows "ascending (calculateAllModes d)
       \<and> zero_factor_first (calculateAllModes d)
       \<and> ties_in_enumeration_order (calculateAllModes d)
       \<and> mode (hd (calculateAllModes d)) = str ''bicycle''
       \<and> emission (hd (calculateAllModes d)) = Fin 0"
proof -
  obtain r where d: "d = Fin r" and r: "0 < r"
    using fd pos by (cases d) (auto simp: js_gt_def)
  note e = emission_positive[OF r]
  define eS where "eS = calculateEmission (Fin r) (str ''bus'')"
  define eC where "eC = calculateEmission (Fin r) (str ''car'')"
  define eT where "eT = calculateEmission (Fin r) (str ''truck'')"
  have le: "js_le (Fin 0) eS" "js_le eS eC" "js_le eC eT"
    using e(2-4) by (simp_all add: eS_def eC_def eT_def)
  have le2: "js_le (Fin 0) eC" "js_le (Fin 0) eT" "js_le eS eT"
    using js_le_trans[OF le(1,2)] js_le_trans[OF js_le_trans[OF le(1,2)] le(3)]
      js_le_trans[OF le(2,3)] by blast+
  show ?thesis
  proof (cases "js_lt eS eC")
    case True
    then have ne: "\<not> js_eq eS eC" by (simp add: js_eq_def)
    have s: "calculateAllModes (Fin r) =
        map (mode_entry (Fin r) eC) [str ''bicycle'', str ''bus'', str ''car'', str ''truck'']"
      using True unfolding calculateAllModes_positive[OF r] eS_def eC_def by simp
    show ?thesis
      unfolding d s using le le2 ne
      by (simp add: e(1) eS_def[symmetric] eC_def[symmetric] eT_def[symmetric]
          mode_indices zero_factors)
  next
    case False
    have sc: "js_le eC eS" using js_le_antisym_eq[OF le(2) False] by blast
    have s: "calculateAllModes (Fin r) =
        map (mode_entry (Fin r) eC) [str ''bicycle'', str ''car'', str ''bus'', str ''truck'']"
      using False unfolding calculateAllModes_positive[OF r] eS_def eC_def by simp
    show ?thesis
      unfolding d s using le le2 sc
      by (simp add: e(1) eS_def[symmetric] eC_def[symmetric] eT_def[symmetric]
          mode_indices zero_factors)
  qed
qed

lemma rep: "\<bar>m\<bar> < 2 ^ 53 \<Longrightarrow> k \<le> 1074 \<Longrightarrow> representable (of_int m / 2 ^ k)"
  by (rule representable_dyadic)

lemma Fin_encl: "is_finite (Fin r)" "r \<le> val (Fin r)" "val (Fin r) \<le> r"
  by simp_all

subsection \<open>The distance 100\<close>

lemma emission_at_100:
  "calculateEmission (Fin 100) (str ''bicycle'') = Fin 0"
  "calculateEmission (Fin 100) (str ''car'') = Fin 12"
  "calculateEmission (Fin 100) (str ''bus'') = num (89/10)"
  "calculateEmission (Fin 100) (str ''truck'') = Fin 96"
proof -
  show "calculateEmission (Fin 100) (str ''bicycle'') = Fin 0"
    using emission_positive(1)[of 100] by simp
  have c: "is_finite (js_mul (Fin 100) (num (12/100)))"
    "12582900 / 2 ^ 20 \<le> val (js_mul (Fin 100) (num (12/100)))"
    "val (js_mul (Fin 100) (num (12/100))) \<le> 12583000 / 2 ^ 20"
    using mul_encl[OF Fin_encl[of 100] car_factor, of "12582900 / 2 ^ 20" "12583000 / 2 ^ 20"]
      rep[of 12582900 20] rep[of 12583000 20] below_threshold[of "12583000 / 2 ^ 20"]
    by simp_all
  have "round2 (js_mul (Fin 100) (num (12/100))) = num (of_int 1200 / 100)"
    using rep[of 1258290000 20] rep[of 1258300000 20]
    by (intro round2_encl[OF c]) simp_all
  also have "\<dots> = Fin 12" using num_int[of 12] by simp
  finally show "calculateEmission (Fin 100) (str ''car'') = Fin 12"
    by (simp only: emission_values)
  have b: "is_finite (js_mul (Fin 100) (num (89/1000)))"
    "9332300 / 2 ^ 20 \<le> val (js_mul (Fin 100) (num (89/1000)))"
    "val (js_mul (Fin 100) (num (89/1000))) \<le> 9332400 / 2 ^ 20"
    using mul_encl[OF Fin_encl[of 100] bus_factor, of "9332300 / 2 ^ 20" "9332400 / 2 ^ 20"]
      rep[of 9332300 20] rep[of 9332400 20] below_threshold[of "9332400 / 2 ^ 20"]
    by simp_all
  have "round2 (js_mul (Fin 100) (num (89/1000))) = num (of_int 890 / 100)"
    using rep[of 933230000 20] rep[of 933240000 20]
    by (intro round2_encl[OF b]) simp_all
  then show "calculateEmission (Fin 100) (str ''bus'') = num (89/10)"
    by (simp add: emission_values)
  have t: "is_finite (js_mul (Fin 100) (num (96/100)))"
    "100663200 / 2 ^ 20 \<le> val (js_mul (Fin 100) (num (96/100)))"
    "val (js_mul (Fin 100) (num (96/100))) \<le> 100663300 / 2 ^ 20"
    using mul_encl[OF Fin_encl[of 100] truck_factor, of "100663200 / 2 ^ 20" "100663300 / 2 ^ 20"]
      rep[of 100663200 20] rep[of 100663300 20] below_threshold[of "100663300 / 2 ^ 20"]
    by simp_all
  have "round2 (js_mul (Fin 100) (num (96/100))) = num (of_int 9600 / 100)"
    using rep[of 10066320000 20] rep[of 10066330000 20]
    by (intro round2_encl[OF t]) simp_all
  also have "\<dots> = Fin 96" using num_int[of 96] by simp
  finally show "calculateEmission (Fin 100) (str ''truck'') = Fin 96"
    by (simp only: emission_values)
qed

lemma num_89_10:
  "is_finite (num (89/10))" "8 \<le> val (num (89/10))" "val (num (89/10)) \<le> 9"
  using num_encl[of 8 "89/10" 9] representable_int[of 8] representable_int[of 9]
    below_threshold[of 9]
  by simp_all

lemma calculateAllModes_100:
  "map mode (calculateAllModes (Fin 100))
     = [str ''bicycle'', str ''bus'', str ''car'', str ''truck'']"
  "map emission (calculateAllModes (Fin 100)) = [Fin 0, num (89/10), Fin 12, Fin 96]"
proof -
  have lt: "js_lt (calculateEmission (Fin 100) (str ''bus'')) (calculateEmission (Fin 100) (str ''car''))"
    unfolding emission_at_100 using num_89_10 by (simp add: js_lt_finite)
  have s: "calculateAllModes (Fin 100) =
      map (mode_entry (Fin 100) (calculateEmission (Fin 100) (str ''car'')))
        [str ''bicycle'', str ''bus'', str ''car'', str ''truck'']"
    using calculateAllModes_positive[of 100] lt by simp
  show "map mode (calculateAllModes (Fin 100))
     = [str ''bicycle'', str ''bus'', str ''car'', str ''truck'']"
    unfolding s by simp
  show "map emission (calculateAllModes (Fin 100)) = [Fin 0, num (89/10), Fin 12, Fin 96]"
    unfolding s by (simp add: emission_at_100)
qed

theorem calculateAllModes_ranked_witness:
  "is_finite (Fin 100) \<and> js_gt (Fin 100) (Fin 0)
   \<and> map mode (calculateAllModes (Fin 100))
       = [str ''bicycle'', str ''bus'', str ''car'', str ''truck'']
   \<and> map emission (calculateAllModes (Fin 100)) = [Fin 0, num (89/10), Fin 12, Fin 96]
   \<and> ascending (calculateAllModes (Fin 100))
   \<and> zero_factor_first (calculateAllModes (Fin 100))
   \<and> ties_in_enumeration_order (calculateAllModes (Fin 100))"
proof -
  have h: "is_finite (Fin 100)" "js_gt (Fin 100) (Fin 0)"
    by (simp_all add: js_gt_def)
  from calculateAllModes_ranked[OF h] h calculateAllModes_100 show ?thesis by blast
qed

subsection \<open>The distance \<open>Infinity\<close>\<close>

lemma factor_Fin:
  "num (12/100) = Fin (val (num (12/100)))" "num (89/1000) = Fin (val (num (89/1000)))"
  "num (96/100) = Fin (val (num (96/100)))"
  "0 < val (num (12/100))" "0 < val (num (89/1000))" "0 < val (num (96/100))"
proof -
  show p: "0 < val (num (12/100))" "0 < val (num (89/1000))" "0 < val (num (96/100))"
    using factor_order by linarith+
  show "num (12/100) = Fin (val (num (12/100)))" "num (89/1000) = Fin (val (num (89/1000)))"
    "num (96/100) = Fin (val (num (96/100)))"
    using positive_is_Fin[OF car_factor(1) p(1)] positive_is_Fin[OF bus_factor(1) p(2)]
      positive_is_Fin[OF truck_factor(1) p(3)] by blast+
qed

lemma emission_at_inf:
  "calculateEmission PosInf (str ''bicycle'') = NaN"
  "calculateEmission PosInf (str ''car'') = PosInf"
  "calculateEmission PosInf (str ''bus'') = PosInf"
  "calculateEmission PosInf (str ''truck'') = PosInf"
proof -
  show "calculateEmission PosInf (str ''bicycle'') = NaN"
    by (simp add: emission_values js_mul_def)
  have "js_mul PosInf (num (12/100)) = PosInf"
    using js_mul_const(2)[OF factor_Fin(4)] factor_Fin(1) by simp
  then show "calculateEmission PosInf (str ''car'') = PosInf"
    by (simp add: emission_values)
  have "js_mul PosInf (num (89/1000)) = PosInf"
    using js_mul_const(2)[OF factor_Fin(5)] factor_Fin(2) by simp
  then show "calculateEmission PosInf (str ''bus'') = PosInf"
    by (simp add: emission_values)
  have "js_mul PosInf (num (96/100)) = PosInf"
    using js_mul_const(2)[OF factor_Fin(6)] factor_Fin(3) by simp
  then show "calculateEmission PosInf (str ''truck'') = PosInf"
    by (simp add: emission_values)
qed

lemma calculateAllModes_inf:
  "map emission (calculateAllModes PosInf) = [NaN, PosInf, PosInf, PosInf]"
  by (simp add: calculateAllModes_unfold emission_at_inf Array_sort_def
      js_gt_def js_sub_def js_add_def zero_of_def)

text \<open>
  The claim as first stated covers \<open>Infinity\<close>, a distance \<open>> 0\<close>: there the bicycle's
  emission is \<open>Infinity * 0\<close>, that is NaN, which is in no order with the other
  emissions.
\<close>

theorem calculateAllModes_infinite_distance:
  "js_gt PosInf (Fin 0) \<and> \<not> ascending (calculateAllModes PosInf)"
proof -
  obtain a b c t where l: "calculateAllModes PosInf = [a, b, c, t]" and "emission a = NaN"
    using calculateAllModes_inf by (auto simp: map_eq_Cons_conv)
  then show ?thesis
    by (simp add: js_gt_def js_le_def js_eq_def)
qed

subsection \<open>The distances 0 and 0.01\<close>

lemma emission_at_0:
  "calculateEmission (Fin 0) (str ''bicycle'') = Fin 0"
  "calculateEmission (Fin 0) (str ''car'') = Fin 0"
  "calculateEmission (Fin 0) (str ''bus'') = Fin 0"
  "calculateEmission (Fin 0) (str ''truck'') = Fin 0"
proof -
  have z: "js_mul (Fin 0) (Fin k) = Fin 0" if "0 \<le> k" for k
    using that by (simp add: js_mul_def zero_of_def)
  show "calculateEmission (Fin 0) (str ''bicycle'') = Fin 0"
    by (simp add: emission_values z)
  have "js_mul (Fin 0) (num (12/100)) = Fin 0"
    using z[of "val (num (12/100))"] factor_Fin(1,4) by simp
  then show "calculateEmission (Fin 0) (str ''car'') = Fin 0"
    by (simp add: emission_values)
  have "js_mul (Fin 0) (num (89/1000)) = Fin 0"
    using z[of "val (num (89/1000))"] factor_Fin(2,5) by simp
  then show "calculateEmission (Fin 0) (str ''bus'') = Fin 0"
    by (simp add: emission_values)
  have "js_mul (Fin 0) (num (96/100)) = Fin 0"
    using z[of "val (num (96/100))"] factor_Fin(3,6) by simp
  then show "calculateEmission (Fin 0) (str ''truck'') = Fin 0"
    by (simp add: emission_values)
qed

lemma percentage_of_zero:
  "mode_entry d (Fin 0) m = \<lparr>mode = m, emission = calculateEmission d m,
     percentageVsCar = round2 (js_mul (js_div (calculateEmission d m) (Fin 0)) (Fin 100))\<rparr>"
  by (simp add: mode_entry_def Let_def)

lemma zero_by_zero: "round2 (js_mul (js_div (Fin 0) (Fin 0)) (Fin 100)) = NaN"
  by (simp add: js_div_def)

lemma calculateAllModes_0:
  "map percentageVsCar (calculateAllModes (Fin 0)) = [NaN, NaN, NaN, NaN]"
  unfolding calculateAllModes_unfold emission_at_0 list.map percentage_of_zero
    zero_by_zero Array_sort_def
  by (simp add: js_gt_def js_sub_def js_add_def zero_of_def)

lemma num_001:
  "is_finite (num (1/100))" "10485 / 2 ^ 20 \<le> val (num (1/100))"
  "val (num (1/100)) \<le> 10486 / 2 ^ 20"
  using num_encl[of "10485 / 2 ^ 20" "1/100" "10486 / 2 ^ 20"]
    rep[of 10485 20] rep[of 10486 20] below_threshold[of "10486 / 2 ^ 20"]
  by simp_all

lemma num_001_Fin: "num (1/100) = Fin (val (num (1/100)))" "0 < val (num (1/100))"
proof -
  show p: "0 < val (num (1/100))" using num_001(2) by simp
  show "num (1/100) = Fin (val (num (1/100)))"
    using positive_is_Fin[OF num_001(1) p] .
qed

lemma emission_at_001:
  "calculateEmission (num (1/100)) (str ''bicycle'') = Fin 0"
  "calculateEmission (num (1/100)) (str ''car'') = Fin 0"
  "calculateEmission (num (1/100)) (str ''bus'') = Fin 0"
  "calculateEmission (num (1/100)) (str ''truck'') = num (1/100)"
proof -
  show "calculateEmission (num (1/100)) (str ''bicycle'') = Fin 0"
    using emission_positive(1)[OF num_001_Fin(2)] num_001_Fin(1) by simp
  have c: "is_finite (js_mul (num (1/100)) (num (12/100)))"
    "1 / 2 ^ 10 \<le> val (js_mul (num (1/100)) (num (12/100)))"
    "val (js_mul (num (1/100)) (num (12/100))) \<le> 2 / 2 ^ 10"
    using mul_encl[OF num_001 car_factor, of "1 / 2 ^ 10" "2 / 2 ^ 10"]
      rep[of 1 10] rep[of 2 10] below_threshold[of "2 / 2 ^ 10"]
    by simp_all
  have "round2 (js_mul (num (1/100)) (num (12/100))) = Fin 0"
    using rep[of 100 10] rep[of 200 10]
    by (intro round2_encl_zero[OF c]) simp_all
  then show "calculateEmission (num (1/100)) (str ''car'') = Fin 0"
    by (simp only: emission_values)
  have b: "is_finite (js_mul (num (1/100)) (num (89/1000)))"
    "1 / 2 ^ 11 \<le> val (js_mul (num (1/100)) (num (89/1000)))"
    "val (js_mul (num (1/100)) (num (89/1000))) \<le> 2 / 2 ^ 11"
    using mul_encl[OF num_001 bus_factor, of "1 / 2 ^ 11" "2 / 2 ^ 11"]
      rep[of 1 11] rep[of 2 11] below_threshold[of "2 / 2 ^ 11"]
    by simp_all
  have "round2 (js_mul (num (1/100)) (num (89/1000))) = Fin 0"
    using rep[of 100 11] rep[of 200 11]
    by (intro round2_encl_zero[OF b]) simp_all
  then show "calculateEmission (num (1/100)) (str ''bus'') = Fin 0"
    by (simp only: emission_values)
  have t: "is_finite (js_mul (num (1/100)) (num (96/100)))"
    "9 / 2 ^ 10 \<le> val (js_mul (num (1/100)) (num (96/100)))"
    "val (js_mul (num (1/100)) (num (96/100))) \<le> 10 / 2 ^ 10"
    using mul_encl[OF num_001 truck_factor, of "9 / 2 ^ 10" "10 / 2 ^ 10"]
      rep[of 9 10] rep[of 10 10] below_threshold[of "10 / 2 ^ 10"]
    by simp_all
  have "round2 (js_mul (num (1/100)) (num (96/100))) = num (of_int 1 / 100)"
    using rep[of 900 10] rep[of 1000 10]
    by (intro round2_encl[OF t]) simp_all
  then show "calculateEmission (num (1/100)) (str ''truck'') = num (1/100)"
    by (simp add: emission_values)
qed

lemma positive_by_zero: "round2 (js_mul (js_div (num (1/100)) (Fin 0)) (Fin 100)) = PosInf"
proof -
  have "js_div (Fin (val (num (1/100)))) (Fin 0) = PosInf"
    using num_001_Fin(2) by (simp add: js_div_def inf_of_def)
  then have "js_div (num (1/100)) (Fin 0) = PosInf"
    using num_001_Fin(1) by simp
  then show ?thesis by (simp add: js_mul_const(2))
qed

lemma calculateAllModes_001:
  "map percentageVsCar (calculateAllModes (num (1/100))) = [NaN, NaN, NaN, PosInf]"
proof -
  have s: "calculateAllModes (Fin (val (num (1/100)))) =
      map (mode_entry (Fin (val (num (1/100))))
             (calculateEmission (Fin (val (num (1/100)))) (str ''car'')))
        [str ''bicycle'', str ''car'', str ''bus'', str ''truck'']"
    unfolding calculateAllModes_positive[OF num_001_Fin(2)]
    unfolding num_001_Fin(1)[symmetric] emission_at_001 by simp
  show ?thesis
    using s unfolding num_001_Fin(1)[symmetric] emission_at_001 list.map percentage_of_zero
    by (simp add: emission_at_001 zero_by_zero positive_by_zero)
qed

text \<open>
  C1. \<open>calculateAllModes\<close> divides by the car's emission without a guard. For the
  distance 0 that emission is 0 and every \<open>percentageVsCar\<close> is NaN; for the distance
  0.01 (the binary64 value of that literal) it rounds to 0 as well and the truck's
  \<open>percentageVsCar\<close> is \<open>Infinity\<close>.
\<close>

theorem calculateAllModes_zero_baseline:
  "calculateEmission (Fin 0) (str ''car'') = Fin 0
   \<and> map percentageVsCar (calculateAllModes (Fin 0)) = [NaN, NaN, NaN, NaN]
   \<and> calculateEmission (num (1/100)) (str ''car'') = Fin 0
   \<and> map percentageVsCar (calculateAllModes (num (1/100))) = [NaN, NaN, NaN, PosInf]"
  by (simp add: calculateAllModes_0 calculateAllModes_001 emission_at_0 emission_at_001)

section \<open>Calculator.estimateCreditPrice\<close>

lemma representable_threshold: "representable overflow_threshold"
proof -
  have "overflow_threshold = of_int 1 * 2 powi 1024"
    by (simp add: overflow_threshold_def)
  then show ?thesis by (rule representableI) simp_all
qed

lemma nonneg_cases:
  assumes "js_le (Fin 0) x"
  obtains "x = PosInf" | "is_finite x" "0 \<le> val x"
  using assms unfolding js_le_iff by auto

lemma finite_between:
  assumes "js_le (Fin 0) x" and "js_le x y" and "is_finite y"
  shows "is_finite x"
  using assms unfolding js_le_iff by (cases y) auto

lemma js_add_finite_val:
  assumes "is_finite x" and "is_finite y" and "is_finite (js_add x y)"
  shows "val (js_add x y) = nearest (val x + val y)"
proof (cases "is_zero x \<and> is_zero y")
  case True
  then show ?thesis
    using assms finite_not_special[OF assms(1)] finite_not_special[OF assms(2)]
    by (simp add: js_add_def is_zero_val)
next
  case False
  then have m: "js_add x y = number_of (val x + val y < 0) (val x + val y)"
    using finite_not_special[OF assms(1)] finite_not_special[OF assms(2)]
    by (auto simp: js_add_def)
  show ?thesis using assms(3) unfolding m by (rule number_of_val)
qed

lemma js_add_nonneg:
  assumes x: "is_finite x" "0 \<le> val x" and y: "is_finite y" "0 \<le> val y"
  shows "js_add x y = PosInf \<or> is_finite (js_add x y)"
proof (cases "is_zero x \<and> is_zero y")
  case True
  then show ?thesis
    using finite_not_special[OF x(1)] finite_not_special[OF y(1)] by (simp add: js_add_def)
next
  case False
  then have m: "js_add x y = number_of (val x + val y < 0) (val x + val y)"
    using finite_not_special[OF x(1)] finite_not_special[OF y(1)]
    by (auto simp: js_add_def)
  have "js_le (Fin 0) (js_add x y)"
    unfolding m using x(2) y(2) by (intro number_of_nonneg) simp
  then show ?thesis unfolding js_le_iff by auto
qed

lemma price_ordered:
  assumes c: "js_le (Fin 0) c"
  shows "js_le (round2 (js_mul c (Fin 50)))
           (round2 (js_div (js_add (js_mul c (Fin 50)) (js_mul c (Fin 150))) (Fin 2)))"
    and "js_le (round2 (js_div (js_add (js_mul c (Fin 50)) (js_mul c (Fin 150))) (Fin 2)))
           (round2 (js_mul c (Fin 150)))"
    and "js_le (Fin 0) (round2 (js_mul c (Fin 50)))"
proof -
  define lo where "lo = js_mul c (Fin 50)"
  define hi where "hi = js_mul c (Fin 150)"
  define s where "s = js_add lo hi"
  define av where "av = js_div s (Fin 2)"
  have lo0: "js_le (Fin 0) lo"
    using js_mul_mono[of 50 "Fin 0" c] c by (simp add: lo_def js_mul_const zero_of_def)
  have hi0: "js_le (Fin 0) hi"
    using js_mul_mono[of 150 "Fin 0" c] c by (simp add: hi_def js_mul_const zero_of_def)
  show "js_le (Fin 0) (round2 (js_mul c (Fin 50)))"
    using round2_nonneg[OF lo0] by (simp add: lo_def)
  have main: "js_le (round2 lo) (round2 av) \<and> js_le (round2 av) (round2 hi)"
  proof (cases "hi = PosInf")
    case True
    have "lo \<noteq> NaN" "lo \<noteq> NegInf" using lo0 unfolding js_le_iff by auto
    then have "s = PosInf"
      unfolding s_def True by (cases lo) (auto simp: js_add_def)
    then have av: "av = PosInf" by (simp add: av_def js_div_const)
    have "round2 lo \<noteq> NaN" using \<open>lo \<noteq> NaN\<close> by (simp add: round2_NaN_iff)
    then show ?thesis unfolding av True by (simp add: js_le_iff)
  next
    case False
    have fh: "is_finite hi" using hi0 False unfolding js_le_iff by (cases hi) auto
    have fc: "is_finite c"
      using fh js_mul_finite_val(1)[of 150 c] by (simp add: hi_def)
    have c0: "0 \<le> val c" using c fc unfolding js_le_iff by (cases c) auto
    have lo_eq: "lo = number_of (signbit c) (val c * 50)"
      and hi_eq: "hi = number_of (signbit c) (val c * 150)"
      using js_mul_const(1)[OF _ fc] by (simp_all add: lo_def hi_def)
    have lohi: "js_le lo hi"
      unfolding lo_eq hi_eq using c0 by (intro number_of_mono) simp
    have fl: "is_finite lo" using finite_between[OF lo0 lohi fh] .
    define L where "L = val lo"
    define H where "H = val hi"
    have L0: "0 \<le> L" using lo0 fl unfolding L_def js_le_iff by (cases lo) auto
    have LH: "L \<le> H" using lohi fl fh unfolding L_def H_def by (simp add: js_le_finite)
    have rL: "representable L" and rH: "representable H"
      using number_of_representable fl fh unfolding L_def H_def lo_eq hi_eq by blast+
    have HT: "H < overflow_threshold"
      using fh unfolding H_def hi_eq by (simp add: number_of_finite_iff number_of_val)
    have sc: "s = PosInf \<or> is_finite s"
      unfolding s_def using js_add_nonneg[OF fl _ fh] L0 LH unfolding L_def H_def by simp
    from sc show ?thesis
    proof
      assume sinf: "s = PosInf"
      then have av: "av = PosInf" by (simp add: av_def js_div_const)
      have nz: "\<not> (is_zero lo \<and> is_zero hi)"
        using sinf fl fh finite_not_special[OF fl] finite_not_special[OF fh]
        unfolding s_def by (auto simp: js_add_def zero_of_def split: if_splits)
      then have m: "s = number_of (L + H < 0) (L + H)"
        using finite_not_special[OF fl] finite_not_special[OF fh]
        unfolding s_def L_def H_def by (auto simp: js_add_def)
      have "overflow_threshold \<le> nearest (L + H)"
        using sinf unfolding m by (simp add: number_of_PosInf_iff)
      also have "nearest (L + H) \<le> nearest (2 * H)"
        using LH by (intro nearest_mono) simp
      also have "nearest (2 * H) = 2 * H"
        using representable_double[OF rH] by (rule nearest_representable)
      finally have big: "overflow_threshold \<le> 2 * H" .
      have "nearest overflow_threshold \<le> nearest (H * 100)"
        using big threshold_pos by (intro nearest_mono) linarith
      then have "overflow_threshold \<le> nearest (H * 100)"
        using nearest_representable[OF representable_threshold] by simp
      then have "js_mul hi (Fin 100) = PosInf"
        using js_mul_const(1)[OF _ fh, of 100]
        by (simp add: number_of_PosInf_iff H_def)
      then have "round2 hi = PosInf"
        by (simp add: round2_def js_div_const)
      moreover have "round2 lo \<noteq> NaN"
        using fl by (auto simp: round2_NaN_iff)
      ultimately show ?thesis unfolding av by (simp add: js_le_iff)
    next
      assume fs: "is_finite s"
      have vs: "val s = nearest (L + H)"
        using js_add_finite_val[OF fl fh] fs unfolding s_def L_def H_def by simp
      have "nearest (2 * L) \<le> nearest (L + H)" using LH by (intro nearest_mono) simp
      then have s1: "2 * L \<le> val s"
        unfolding vs using nearest_representable[OF representable_double[OF rL]] by simp
      have "nearest (L + H) \<le> nearest (2 * H)" using LH by (intro nearest_mono) simp
      then have s2: "val s \<le> 2 * H"
        unfolding vs using nearest_representable[OF representable_double[OF rH]] by simp
      have av_eq: "av = number_of (signbit s) (val s / 2)"
        unfolding av_def using js_div_const(1)[OF _ fs, of 2] by simp
      have n1: "L \<le> nearest (val s / 2)" and n2: "nearest (val s / 2) \<le> H"
        using nearest_between[of L "val s / 2" H] s1 s2 rL rH by simp_all
      have fa: "is_finite av"
        unfolding av_eq number_of_finite_iff using n1 n2 L0 HT threshold_pos by linarith
      have va: "val av = nearest (val s / 2)"
        using fa unfolding av_eq by (rule number_of_val)
      have "js_le lo av" "js_le av hi"
        using n1 n2 fl fa fh unfolding va[symmetric] L_def H_def by (simp_all add: js_le_finite)
      then show ?thesis by (blast intro: round2_mono)
    qed
  qed
  show "js_le (round2 (js_mul c (Fin 50)))
           (round2 (js_div (js_add (js_mul c (Fin 50)) (js_mul c (Fin 150))) (Fin 2)))"
    and "js_le (round2 (js_div (js_add (js_mul c (Fin 50)) (js_mul c (Fin 150))) (Fin 2)))
           (round2 (js_mul c (Fin 150)))"
    using main unfolding lo_def hi_def s_def av_def by blast+
qed

lemma credits_nonneg:
  assumes "js_ge e (Fin 0)"
  shows "js_le (Fin 0) (calculateCarbonCredits e)"
proof -
  have "js_le (js_div (Fin 0) (Fin 1000)) (js_div e (Fin 1000))"
    using assms by (intro js_div_mono) (simp_all add: js_ge_def)
  then have "js_le (Fin 0) (js_div e (Fin 1000))"
    by (simp add: js_div_const zero_of_def)
  then show ?thesis
    unfolding calculateCarbonCredits_def Let_def KG_PER_CREDIT_def by (rule round2_nonneg)
qed

lemma round2_two_decimals:
  "is_finite (round2 x) \<Longrightarrow> val (round2 x) = two_decimals (val x)"
  unfolding two_decimals_def by (rule round2_finite_val(2))

lemma price_values:
  assumes c: "js_le (Fin 0) c" and f: "is_finite (max_price (estimateCreditPrice c))"
  shows "is_finite c"
    and "is_finite (min_price (estimateCreditPrice c))"
    and "is_finite (average (estimateCreditPrice c))"
    and "val (min_price (estimateCreditPrice c)) = two_decimals (nearest (val c * 50))"
    and "val (max_price (estimateCreditPrice c)) = two_decimals (nearest (val c * 150))"
    and "val (average (estimateCreditPrice c)) =
           two_decimals (nearest (nearest (nearest (val c * 50) + nearest (val c * 150)) / 2))"
proof -
  define lo where "lo = js_mul c (Fin 50)"
  define hi where "hi = js_mul c (Fin 150)"
  define s where "s = js_add lo hi"
  define av where "av = js_div s (Fin 2)"
  have p: "min_price (estimateCreditPrice c) = round2 lo"
    "max_price (estimateCreditPrice c) = round2 hi"
    "average (estimateCreditPrice c) = round2 av"
    by (simp_all add: estimateCreditPrice_def Let_def PRICE_MIN_BRL_def PRICE_MAX_BRL_def
        lo_def hi_def s_def av_def)
  note o = price_ordered[OF c, folded lo_def hi_def, folded s_def, folded av_def]
  have frh: "is_finite (round2 hi)" using f by (simp only: p)
  have fra: "is_finite (round2 av)"
    using finite_between[OF js_le_trans[OF o(3) o(1)] o(2) frh] .
  have frl: "is_finite (round2 lo)"
    using finite_between[OF o(3) o(1) fra] .
  have fh: "is_finite hi" and fa: "is_finite av" and fl: "is_finite lo"
    using round2_finite_val(1) frh fra frl by blast+
  show fc: "is_finite c"
    using js_mul_finite_val(1)[of 150 c] fh by (simp add: hi_def)
  have vl: "val lo = nearest (val c * 50)" and vh: "val hi = nearest (val c * 150)"
    using js_mul_finite_val(2)[of 50 c] js_mul_finite_val(2)[of 150 c] fl fh
    by (simp_all add: lo_def hi_def)
  have fs: "is_finite s"
    using js_div_finite_val(1)[of 2 s] fa by (simp add: av_def)
  have vs: "val s = nearest (val lo + val hi)"
    using js_add_finite_val[OF fl fh] fs by (simp add: s_def)
  have va: "val av = nearest (val s / 2)"
    using js_div_finite_val(2)[of 2 s] fa by (simp add: av_def)
  show "is_finite (min_price (estimateCreditPrice c))"
    "is_finite (average (estimateCreditPrice c))"
    using frl fra by (simp_all only: p)
  show "val (min_price (estimateCreditPrice c)) = two_decimals (nearest (val c * 50))"
    unfolding p round2_two_decimals[OF frl] vl ..
  show "val (max_price (estimateCreditPrice c)) = two_decimals (nearest (val c * 150))"
    unfolding p round2_two_decimals[OF frh] vh ..
  show "val (average (estimateCreditPrice c)) =
           two_decimals (nearest (nearest (nearest (val c * 50) + nearest (val c * 150)) / 2))"
    unfolding p round2_two_decimals[OF fra] va vs vl vh ..
qed

lemma credits_value:
  assumes "is_finite (calculateCarbonCredits e)"
  shows "val (calculateCarbonCredits e) = two_decimals (nearest (val e / 1000))"
proof -
  have r: "is_finite (round2 (js_div e (Fin 1000)))"
    using assms by (simp add: calculateCarbonCredits_def KG_PER_CREDIT_def)
  have d: "is_finite (js_div e (Fin 1000))" using round2_finite_val(1)[OF r] .
  have "val (js_div e (Fin 1000)) = nearest (val e / 1000)"
    using js_div_finite_val(2)[of 1000 e] d by simp
  then show ?thesis
    using round2_two_decimals[OF r] by (simp add: calculateCarbonCredits_def KG_PER_CREDIT_def)
qed

text \<open>
  C7. For every non-negative \<open>emissionKg\<close>, the price estimate of the credits
  computed for it satisfies \<open>min \<le> average \<le> max\<close>, in binary64 arithmetic and also
  when a value overflows to \<open>Infinity\<close>. For an emission up to \<open>2^990\<close> kg \<open>max\<close> is
  finite, and as long as \<open>max\<close> is finite the three prices
  are finite, the credits \<open>c\<close> are the thousandth of the emission rounded to 2 decimals,
  and \<open>min\<close> is \<open>c * 50\<close>, \<open>max\<close> is \<open>c * 150\<close> and \<open>average\<close> is the half of the sum
  of these two unrounded products, each rounded to 2 decimals from its own unrounded
  value.
\<close>

theorem price_estimate_ordered:
  assumes "js_ge emissionKg (Fin 0)"
  shows "let credits = calculateCarbonCredits emissionKg; p = estimateCreditPrice credits;
             c = val credits
         in js_le (min_price p) (average p) \<and> js_le (average p) (max_price p)
          \<and> (is_finite emissionKg \<and> val emissionKg \<le> 2 ^ 990 \<longrightarrow> is_finite (max_price p))
          \<and> (is_finite (max_price p) \<longrightarrow>
               is_finite (min_price p) \<and> is_finite (average p)
             \<and> c = two_decimals (nearest (val emissionKg / 1000))
             \<and> val (min_price p) = two_decimals (nearest (c * 50))
             \<and> val (max_price p) = two_decimals (nearest (c * 150))
             \<and> val (average p) =
                 two_decimals (nearest (nearest (nearest (c * 50) + nearest (c * 150)) / 2)))"
proof -
  define credits where "credits = calculateCarbonCredits emissionKg"
  have c: "js_le (Fin 0) credits"
    unfolding credits_def using assms by (rule credits_nonneg)
  have o: "js_le (min_price (estimateCreditPrice credits)) (average (estimateCreditPrice credits))"
    "js_le (average (estimateCreditPrice credits)) (max_price (estimateCreditPrice credits))"
    using price_ordered(1,2)[OF c]
    by (simp_all add: estimateCreditPrice_def Let_def PRICE_MIN_BRL_def PRICE_MAX_BRL_def)
  have f: "is_finite (max_price (estimateCreditPrice credits))"
    if "is_finite emissionKg \<and> val emissionKg \<le> 2 ^ 990"
  proof -
    have "0 \<le> val emissionKg"
      using assms that by (simp add: js_ge_def js_le_finite)
    then have "\<bar>val emissionKg\<bar> \<le> 2 ^ 990" using that by simp
    then show ?thesis unfolding credits_def using that by (intro max_price_finite) simp_all
  qed
  have v: "is_finite (min_price (estimateCreditPrice credits))
      \<and> is_finite (average (estimateCreditPrice credits))
      \<and> val credits = two_decimals (nearest (val emissionKg / 1000))
      \<and> val (min_price (estimateCreditPrice credits)) = two_decimals (nearest (val credits * 50))
      \<and> val (max_price (estimateCreditPrice credits)) = two_decimals (nearest (val credits * 150))
      \<and> val (average (estimateCreditPrice credits)) =
           two_decimals (nearest (nearest (nearest (val credits * 50) + nearest (val credits * 150)) / 2))"
    if f: "is_finite (max_price (estimateCreditPrice credits))"
    using price_values[OF c f] credits_value[of emissionKg] unfolding credits_def by blast
  show ?thesis
    unfolding Let_def credits_def[symmetric] using o f v by blast
qed

subsection \<open>The emission 12340 kg\<close>

lemma num_1234:
  "is_finite (num (1234/100))" "12939427 / 2 ^ 20 \<le> val (num (1234/100))"
  "val (num (1234/100)) \<le> 12939428 / 2 ^ 20"
  using num_encl[of "12939427 / 2 ^ 20" "1234/100" "12939428 / 2 ^ 20"]
    rep[of 12939427 20] rep[of 12939428 20] below_threshold[of "12939428 / 2 ^ 20"]
  by simp_all

lemma credits_12340: "calculateCarbonCredits (Fin 12340) = num (1234/100)"
proof -
  have d: "is_finite (js_div (Fin 12340) (Fin 1000))"
    "12939427 / 2 ^ 20 \<le> val (js_div (Fin 12340) (Fin 1000))"
    "val (js_div (Fin 12340) (Fin 1000)) \<le> 12939428 / 2 ^ 20"
    using div_encl[OF Fin_encl[of 12340], of 1000 "12939427 / 2 ^ 20" "12939428 / 2 ^ 20"]
      rep[of 12939427 20] rep[of 12939428 20] below_threshold[of "12939428 / 2 ^ 20"]
    by simp_all
  have "round2 (js_div (Fin 12340) (Fin 1000)) = num (of_int 1234 / 100)"
    using rep[of 1293942700 20] rep[of 1293942800 20]
    by (intro round2_encl[OF d]) simp_all
  then show ?thesis
    by (simp add: calculateCarbonCredits_def KG_PER_CREDIT_def)
qed

lemma price_1234:
  "estimateCreditPrice (num (1234/100))
     = \<lparr>min_price = Fin 617, max_price = Fin 1851, average = Fin 1234\<rparr>"
proof -
  define c where "c = num (1234/100)"
  note cb = num_1234[folded c_def]
  have lo: "is_finite (js_mul c (Fin 50))"
    "646971350 / 2 ^ 20 \<le> val (js_mul c (Fin 50))"
    "val (js_mul c (Fin 50)) \<le> 646971400 / 2 ^ 20"
    using mul_encl[OF cb Fin_encl[of 50], of "646971350 / 2 ^ 20" "646971400 / 2 ^ 20"]
      rep[of 646971350 20] rep[of 646971400 20] below_threshold[of "646971400 / 2 ^ 20"]
    by simp_all
  have hi: "is_finite (js_mul c (Fin 150))"
    "1940914050 / 2 ^ 20 \<le> val (js_mul c (Fin 150))"
    "val (js_mul c (Fin 150)) \<le> 1940914200 / 2 ^ 20"
    using mul_encl[OF cb Fin_encl[of 150], of "1940914050 / 2 ^ 20" "1940914200 / 2 ^ 20"]
      rep[of 1940914050 20] rep[of 1940914200 20] below_threshold[of "1940914200 / 2 ^ 20"]
    by simp_all
  have s: "is_finite (js_add (js_mul c (Fin 50)) (js_mul c (Fin 150)))"
    "2587885400 / 2 ^ 20 \<le> val (js_add (js_mul c (Fin 50)) (js_mul c (Fin 150)))"
    "val (js_add (js_mul c (Fin 50)) (js_mul c (Fin 150))) \<le> 2587885600 / 2 ^ 20"
    using add_encl[OF lo hi, of "2587885400 / 2 ^ 20" "2587885600 / 2 ^ 20"]
      rep[of 2587885400 20] rep[of 2587885600 20] below_threshold[of "2587885600 / 2 ^ 20"]
    by simp_all
  have av: "is_finite (js_div (js_add (js_mul c (Fin 50)) (js_mul c (Fin 150))) (Fin 2))"
    "1293942700 / 2 ^ 20 \<le> val (js_div (js_add (js_mul c (Fin 50)) (js_mul c (Fin 150))) (Fin 2))"
    "val (js_div (js_add (js_mul c (Fin 50)) (js_mul c (Fin 150))) (Fin 2)) \<le> 1293942800 / 2 ^ 20"
    using div_encl[OF s, of 2 "1293942700 / 2 ^ 20" "1293942800 / 2 ^ 20"]
      rep[of 1293942700 20] rep[of 1293942800 20] below_threshold[of "1293942800 / 2 ^ 20"]
    by simp_all
  have "round2 (js_mul c (Fin 50)) = num (of_int 61700 / 100)"
    using rep[of 64697135000 20] rep[of 64697140000 20]
    by (intro round2_encl[OF lo]) simp_all
  then have a: "round2 (js_mul c (Fin 50)) = Fin 617"
    using num_int[of 617] by simp
  have "round2 (js_mul c (Fin 150)) = num (of_int 185100 / 100)"
    using rep[of 194091405000 20] rep[of 194091420000 20]
    by (intro round2_encl[OF hi]) simp_all
  then have b: "round2 (js_mul c (Fin 150)) = Fin 1851"
    using num_int[of 1851] by simp
  have "round2 (js_div (js_add (js_mul c (Fin 50)) (js_mul c (Fin 150))) (Fin 2))
          = num (of_int 123400 / 100)"
    using rep[of 129394270000 20] rep[of 129394280000 20]
    by (intro round2_encl[OF av]) simp_all
  then have m: "round2 (js_div (js_add (js_mul c (Fin 50)) (js_mul c (Fin 150))) (Fin 2)) = Fin 1234"
    using num_int[of 1234] by simp
  show ?thesis
    unfolding c_def[symmetric]
    by (simp add: estimateCreditPrice_def Let_def PRICE_MIN_BRL_def PRICE_MAX_BRL_def a b m)
qed

theorem price_estimate_ordered_witness:
  "js_ge (Fin 12340) (Fin 0) \<and> is_finite (Fin 12340) \<and> (12340::real) \<le> 2 ^ 990
   \<and> calculateCarbonCredits (Fin 12340) = num (1234/100)
   \<and> estimateCreditPrice (num (1234/100))
       = \<lparr>min_price = Fin 617, max_price = Fin 1851, average = Fin 1234\<rparr>
   \<and> js_le (Fin 617) (Fin 1234) \<and> js_le (Fin 1234) (Fin 1851)
   \<and> is_finite (Fin 1851)
   \<and> val (num (1234/100)) = two_decimals (nearest (12340 / 1000))
   \<and> 617 = two_decimals (nearest (val (num (1234/100)) * 50))
   \<and> 1851 = two_decimals (nearest (val (num (1234/100)) * 150))
   \<and> 1234 = two_decimals (nearest (nearest (nearest (val (num (1234/100)) * 50)
                                        + nearest (val (num (1234/100)) * 150)) / 2))"
proof -
  have h: "js_ge (Fin 12340) (Fin 0)" by (simp add: js_ge_def js_le_def)
  have b: "is_finite (Fin 12340)" "(12340::real) \<le> 2 ^ 990" by simp_all
  note t = price_estimate_ordered[OF h, unfolded Let_def credits_12340 price_1234
      price.select_convs val.simps]
  from t b h credits_12340 price_1234 show ?thesis by blast
qed

section \<open>Calculator.calculateSavings\<close>

lemma savedKg_eq: "savedKg (calculateSavings e b) = round2 (js_sub b e)"
  by (simp add: calculateSavings_def Let_def)

text \<open>
  C8, as amended. For every emission and every non-zero baseline: a strictly positive
  \<open>savedKg\<close> implies \<open>emission < baseline\<close>, and \<open>emission < baseline\<close> implies
  \<open>savedKg \<ge> 0\<close>. A negative \<open>savedKg\<close> is an ordinary result.
\<close>

theorem calculateSavings_sign:
  assumes "\<not> is_zero baseline"
  shows "(js_gt (savedKg (calculateSavings e baseline)) (Fin 0) \<longrightarrow> js_lt e baseline)
       \<and> (js_lt e baseline \<longrightarrow> js_ge (savedKg (calculateSavings e baseline)) (Fin 0))"
proof -
  have a: "js_lt e baseline" if g: "js_gt (savedKg (calculateSavings e baseline)) (Fin 0)"
  proof (rule ccontr)
    assume "\<not> js_lt e baseline"
    then consider "js_sub baseline e = NaN" | "js_le (js_sub baseline e) (Fin 0)"
      using js_sub_sign(2) by blast
    then show False
    proof cases
      case 1
      then show ?thesis using g by (simp add: savedKg_eq js_gt_def)
    next
      case 2
      then have "js_le (round2 (js_sub baseline e)) (Fin 0)" by (rule round2_nonpos)
      then have "\<not> js_lt (Fin 0) (round2 (js_sub baseline e))" by (rule js_le_not_lt)
      then show ?thesis using g by (simp add: savedKg_eq js_gt_def)
    qed
  qed
  have b: "js_ge (savedKg (calculateSavings e baseline)) (Fin 0)" if "js_lt e baseline"
    unfolding savedKg_eq js_ge_def using js_sub_sign(1)[OF that] by (rule round2_nonneg)
  from a b show ?thesis by blast
qed

lemma num_89_10_tight:
  "is_finite (num (89/10))" "9332326 / 2 ^ 20 \<le> val (num (89/10))"
  "val (num (89/10)) \<le> 9332327 / 2 ^ 20"
  using num_encl[of "9332326 / 2 ^ 20" "89/10" "9332327 / 2 ^ 20"]
    rep[of 9332326 20] rep[of 9332327 20] below_threshold[of "9332327 / 2 ^ 20"]
  by simp_all

lemma savedKg_bus: "savedKg (calculateSavings (num (89/10)) (Fin 12)) = num (31/10)"
proof -
  have d: "is_finite (js_sub (Fin 12) (num (89/10)))"
    "3250585 / 2 ^ 20 \<le> val (js_sub (Fin 12) (num (89/10)))"
    "val (js_sub (Fin 12) (num (89/10))) \<le> 3250586 / 2 ^ 20"
    using sub_encl[OF Fin_encl[of 12] num_89_10_tight, of "3250585 / 2 ^ 20" "3250586 / 2 ^ 20"]
      rep[of 3250585 20] rep[of 3250586 20] below_threshold[of "3250586 / 2 ^ 20"]
    by simp_all
  have "round2 (js_sub (Fin 12) (num (89/10))) = num (of_int 310 / 100)"
    using rep[of 325058500 20] rep[of 325058600 20]
    by (intro round2_encl[OF d]) simp_all
  then show ?thesis by (simp add: savedKg_eq)
qed

lemma num_31_10:
  "is_finite (num (31/10))" "3 \<le> val (num (31/10))" "val (num (31/10)) \<le> 4"
  using num_encl[of 3 "31/10" 4] representable_int[of 3] representable_int[of 4]
    below_threshold[of 4]
  by simp_all

lemma number_of_exact_neg:
  assumes "representable x" and "x < 0" and "- overflow_threshold < x"
  shows "number_of s x = Fin x"
  using assms nearest_representable[OF assms(1)] threshold_pos
  by (simp add: number_of_def Let_def del: threshold_pos)

lemma savedKg_truck: "savedKg (calculateSavings (Fin 96) (Fin 12)) = Fin (- 84)"
proof -
  have t: "- overflow_threshold < x" if "- (2 ^ 62) \<le> x" for x
    using below_threshold[of "- x"] that by simp
  have r: "representable (- 84)" "representable (- 8400)"
    using representable_int[of "- 84"] representable_int[of "- 8400"] by simp_all
  have a: "js_sub (Fin 12) (Fin 96) = Fin (- 84)"
    using number_of_exact_neg[OF r(1) _ t, of True] by (simp add: js_sub_finite)
  have b: "js_mul (Fin (- 84)) (Fin 100) = Fin (- 8400)"
    using number_of_exact_neg[OF r(2) _ t, of True] by (simp add: js_mul_const)
  have c: "js_div (Fin (- 8400)) (Fin 100) = Fin (- 84)"
    using number_of_exact_neg[OF r(1) _ t, of True] by (simp add: js_div_const)
  have "Math_round (Fin (- 8400)) = Fin (- 8400)" by simp
  then show ?thesis
    unfolding savedKg_eq round2_def a b using c by simp
qed

theorem calculateSavings_sign_witness:
  "\<not> is_zero (Fin 12) \<and> js_lt (num (89/10)) (Fin 12)
   \<and> savedKg (calculateSavings (num (89/10)) (Fin 12)) = num (31/10)
   \<and> js_ge (num (31/10)) (Fin 0) \<and> js_gt (num (31/10)) (Fin 0)
   \<and> \<not> js_lt (Fin 96) (Fin 12)
   \<and> savedKg (calculateSavings (Fin 96) (Fin 12)) = Fin (- 84)
   \<and> \<not> js_gt (Fin (- 84)) (Fin 0)"
proof -
  have h: "\<not> is_zero (Fin 12)" by simp
  have lt: "js_lt (num (89/10)) (Fin 12)"
    using num_89_10 by (simp add: js_lt_finite)
  have ge: "js_ge (num (31/10)) (Fin 0)"
    using calculateSavings_sign[OF h, of "num (89/10)"] lt unfolding savedKg_bus by blast
  have gt: "js_gt (num (31/10)) (Fin 0)"
    using num_31_10 by (simp add: js_gt_def js_lt_finite)
  have n: "\<not> js_lt (Fin 96) (Fin 12)" by simp
  have ng: "\<not> js_gt (Fin (- 84)) (Fin 0)"
    using calculateSavings_sign[OF h, of "Fin 96"] n unfolding savedKg_truck by blast
  from h lt savedKg_bus ge gt n savedKg_truck ng show ?thesis by blast
qed

lemma num_11999:
  "is_finite (num (11999/1000))" "12581863 / 2 ^ 20 \<le> val (num (11999/1000))"
  "val (num (11999/1000)) \<le> 12581864 / 2 ^ 20"
  using num_encl[of "12581863 / 2 ^ 20" "11999/1000" "12581864 / 2 ^ 20"]
    rep[of 12581863 20] rep[of 12581864 20] below_threshold[of "12581864 / 2 ^ 20"]
  by simp_all

lemma savedKg_11999: "savedKg (calculateSavings (num (11999/1000)) (Fin 12)) = Fin 0"
proof -
  have d: "is_finite (js_sub (Fin 12) (num (11999/1000)))"
    "1048 / 2 ^ 20 \<le> val (js_sub (Fin 12) (num (11999/1000)))"
    "val (js_sub (Fin 12) (num (11999/1000))) \<le> 1049 / 2 ^ 20"
    using sub_encl[OF Fin_encl[of 12] num_11999, of "1048 / 2 ^ 20" "1049 / 2 ^ 20"]
      rep[of 1048 20] rep[of 1049 20] below_threshold[of "1049 / 2 ^ 20"]
    by simp_all
  have "round2 (js_sub (Fin 12) (num (11999/1000))) = Fin 0"
    using rep[of 104800 20] rep[of 104900 20]
    by (intro round2_encl_zero[OF d]) simp_all
  then show ?thesis by (simp add: savedKg_eq)
qed

text \<open>
  The claim as first stated fails: with emission 11.999 and baseline 12 the emission is
  below the baseline, yet the difference rounds to 0 and \<open>savedKg\<close> is not strictly
  positive.
\<close>

theorem calculateSavings_sign_counterexample:
  "\<not> is_zero (Fin 12) \<and> js_lt (num (11999/1000)) (Fin 12)
   \<and> savedKg (calculateSavings (num (11999/1000)) (Fin 12)) = Fin 0
   \<and> \<not> js_gt (savedKg (calculateSavings (num (11999/1000)) (Fin 12))) (Fin 0)"
proof -
  have "js_lt (num (11999/1000)) (Fin 12)"
    using num_11999 by (simp add: js_lt_finite)
  then show ?thesis
    by (simp add: savedKg_11999 js_gt_def)
qed

section \<open>The zero baseline\<close>

lemma number_of_exact_any:
  assumes "representable x" and "x \<noteq> 0" and "\<bar>x\<bar> < overflow_threshold"
  shows "number_of s x = Fin x"
  using assms nearest_representable[OF assms(1)] threshold_pos
  by (auto simp: number_of_def Let_def simp del: threshold_pos)

lemma is_double_cases:
  assumes "is_double e"
  obtains "e = NaN" | "e = PosInf" | "e = NegInf" | "is_zero e"
    | v where "e = Fin v" "v \<noteq> 0" "representable v" "\<bar>v\<bar> < overflow_threshold"
  using assms by (cases e) (auto simp: is_double_def)

lemma js_sub_from_zero:
  assumes e: "e = Fin v" "v \<noteq> 0" "representable v" "\<bar>v\<bar> < overflow_threshold"
    and z: "is_zero z"
  shows "js_sub z e = Fin (- v)"
proof -
  have fz: "is_finite z" "val z = 0" using z by (cases z; simp)+
  have r: "representable (- v)" using e(3) by (rule representable_minus)
  have "js_sub z e = number_of (0 - v < 0) (0 - v)"
    using js_sub_finite[of z e] fz e(1,2) by simp
  also have "\<dots> = Fin (- v)"
    using number_of_exact_any[OF r, of "0 - v < 0"] e(2,4) by simp
  finally show ?thesis .
qed

lemma js_sub_zero_zero:
  assumes "is_zero z" and "is_zero e"
  shows "is_zero (js_sub z e)"
  using assms by (cases z; cases e) (auto simp: js_sub_def js_add_def zero_of_def)

lemma round2_is_zero: "is_zero x \<Longrightarrow> is_zero (round2 x)"
  by (cases x) auto

lemma savedKg_zero_baseline:
  assumes d: "is_double e" and z: "is_zero z"
  shows "same_value_zero (savedKg (calculateSavings e z)) (round2 (js_neg e))"
proof -
  have fz: "is_finite z" "z \<noteq> NaN" using z by (cases z; simp)+
  from d show ?thesis
  proof (cases rule: is_double_cases)
    case 1
    then show ?thesis by (simp add: savedKg_eq same_value_zero_def)
  next
    case 2
    then show ?thesis using z by (cases z) (auto simp: savedKg_eq same_value_zero_def js_sub_def js_add_def)
  next
    case 3
    then show ?thesis using z by (cases z) (auto simp: savedKg_eq same_value_zero_def js_sub_def js_add_def)
  next
    case 4
    have "is_zero (js_neg e)" using 4 by (cases e) auto
    then show ?thesis
      using round2_is_zero[OF js_sub_zero_zero[OF z 4]] round2_is_zero[of "js_neg e"]
      by (simp add: savedKg_eq same_value_zero_def)
  next
    case (5 v)
    then show ?thesis
      using js_sub_from_zero[OF 5 z] by (simp add: savedKg_eq same_value_zero_def)
  qed
qed

lemma percentage_eq:
  "percentage (calculateSavings e b) = round2 (js_mul (js_div (js_sub b e) b) (Fin 100))"
  by (simp add: calculateSavings_def Let_def)

lemma percentage_zero_baseline:
  assumes d: "is_double e" and z: "is_zero z"
  shows "js_gt e (Fin 0) \<Longrightarrow> percentage (calculateSavings e z) = inf_of (\<not> signbit z)"
    and "js_eq e (Fin 0) \<Longrightarrow> percentage (calculateSavings e z) = NaN"
proof -
  show "percentage (calculateSavings e z) = inf_of (\<not> signbit z)" if g: "js_gt e (Fin 0)"
  using d proof (cases rule: is_double_cases)
    case 1 then show ?thesis using g by (simp add: js_gt_def)
  next
    case 2
    then show ?thesis using z
      by (cases z) (auto simp: percentage_eq js_sub_def js_add_def js_div_def js_mul_def inf_of_def)
  next
    case 3 then show ?thesis using g by (simp add: js_gt_def)
  next
    case 4 then show ?thesis using g by (cases e) (auto simp: js_gt_def)
  next
    case (5 v)
    have v: "0 < v" using g 5(1) by (simp add: js_gt_def)
    have "js_div (Fin (- v)) z = inf_of (\<not> signbit z)"
      using v z by (cases z) (auto simp: js_div_def inf_of_def)
    then show ?thesis
      unfolding percentage_eq js_sub_from_zero[OF 5 z]
      by (cases "signbit z") (simp_all add: inf_of_def js_mul_const)
  qed
  show "percentage (calculateSavings e z) = NaN" if g: "js_eq e (Fin 0)"
  proof -
    have ez: "is_zero e" using g by (cases e) (auto simp: js_eq_def)
    have "is_zero (js_sub z e)" using z ez by (rule js_sub_zero_zero)
    then have "js_div (js_sub z e) z = NaN"
      using z by (auto simp: js_div_def)
    then show ?thesis by (simp add: percentage_eq)
  qed
qed

lemma savedKg_zero_baseline_value:
  assumes d: "is_double e" and f: "is_finite (savedKg (calculateSavings e (Fin 0)))"
  shows "val (savedKg (calculateSavings e (Fin 0))) = two_decimals (- val e)"
proof -
  have fr: "is_finite (round2 (js_sub (Fin 0) e))" using f by (simp only: savedKg_eq)
  have fs: "is_finite (js_sub (Fin 0) e)" using round2_finite_val(1)[OF fr] .
  have "val (js_sub (Fin 0) e) = - val e"
  using d proof (cases rule: is_double_cases)
    case 1 then show ?thesis using fs by simp
  next
    case 2 then show ?thesis using fs by (simp add: js_sub_def js_add_def)
  next
    case 3 then show ?thesis using fs by (simp add: js_sub_def js_add_def)
  next
    case 4
    then have "is_zero (js_sub (Fin 0) e)" by (intro js_sub_zero_zero) simp_all
    then show ?thesis using 4 fs by (cases e) (auto simp: is_zero_val)
  next
    case (5 v)
    then show ?thesis using js_sub_from_zero[OF 5, of "Fin 0"] by simp
  qed
  then show ?thesis
    using round2_two_decimals[OF fr] by (simp add: savedKg_eq)
qed

text \<open>
  C10. For every emission value, \<open>calculateSavings(emission, 0)\<close> returns a result.
  \<open>savedKg\<close> is the negated emission rounded to 2 decimals: it is what the rounding
  idiom makes of \<open>-emission\<close>, up to the sign of a zero; it is finite for an emission up
  to \<open>2^990\<close> in magnitude, and when it is finite its value is
  \<open>two_decimals (-emission)\<close>. \<open>percentage\<close> is \<open>-Infinity\<close> when the emission is
  positive and NaN when it is zero. The baseline \<open>0\<close> is the positive zero; with the
  negative zero as the baseline the percentage of a positive emission is \<open>+Infinity\<close>.
\<close>

theorem calculateSavings_zero_baseline:
  assumes "is_double e"
  shows "same_value_zero (savedKg (calculateSavings e (Fin 0))) (round2 (js_neg e))
   \<and> (is_finite e \<and> \<bar>val e\<bar> \<le> 2 ^ 990 \<longrightarrow> is_finite (savedKg (calculateSavings e (Fin 0))))
   \<and> (is_finite (savedKg (calculateSavings e (Fin 0))) \<longrightarrow>
        val (savedKg (calculateSavings e (Fin 0))) = two_decimals (- val e))
   \<and> (js_gt e (Fin 0) \<longrightarrow> percentage (calculateSavings e (Fin 0)) = NegInf)
   \<and> (js_eq e (Fin 0) \<longrightarrow> percentage (calculateSavings e (Fin 0)) = NaN)
   \<and> (js_gt e (Fin 0) \<longrightarrow> percentage (calculateSavings e NegZero) = PosInf)
   \<and> (js_eq e (Fin 0) \<longrightarrow> percentage (calculateSavings e NegZero) = NaN)"
proof -
  have f: "is_finite (savedKg (calculateSavings e (Fin 0)))"
    if "is_finite e \<and> \<bar>val e\<bar> \<le> 2 ^ 990"
    using that by (intro savedKg_finite) simp_all
  show ?thesis
    using savedKg_zero_baseline[OF assms, of "Fin 0"] savedKg_zero_baseline_value[OF assms] f
      percentage_zero_baseline[OF assms, of "Fin 0"] percentage_zero_baseline[OF assms, of NegZero]
    by (simp add: inf_of_def)
qed

lemma double_eighth: "is_double (Fin (1/8))"
  using rep[of 1 3] below_threshold[of "1/8"] by (simp add: is_double_def)

lemma savedKg_eighth: "savedKg (calculateSavings (Fin (1/8)) (Fin 0)) = num (- (12/100))"
proof -
  have t: "\<bar>x\<bar> < overflow_threshold" if "\<bar>x\<bar> \<le> 2 ^ 62" for x
    using below_threshold[OF that] .
  have r: "representable (1/8)" "representable (- (25/2))"
    using rep[of 1 3] representable_minus[OF rep[of 25 1]] by simp_all
  have a: "js_sub (Fin 0) (Fin (1/8)) = Fin (- (1/8))"
    using js_sub_from_zero[of "Fin (1/8)" "1/8" "Fin 0"] r(1) t[of "1/8"] by simp
  have b: "js_mul (Fin (- (1/8))) (Fin 100) = Fin (- (25/2))"
    using number_of_exact_any[OF r(2) _ t, of True] by (simp add: js_mul_const)
  have c: "Math_round (Fin (- (25/2))) = Fin (- 12)"
  proof -
    have "\<lfloor>- (25/2) + 1/2 :: real\<rfloor> = - 12" by simp
    then show ?thesis by simp
  qed
  have d: "js_div (Fin (- 12)) (Fin 100) = num (- (12/100))"
    by (simp add: js_div_const num_def)
  show ?thesis
    unfolding savedKg_eq round2_def a b c d ..
qed

lemma num_minus_012:
  "is_finite (num (- (12/100)))" "val (num (- (12/100))) = - nearest (12/100)"
proof -
  have a: "representable (1/16)" "representable (1/8)"
    using rep[of 1 4] rep[of 1 3] by simp_all
  have b: "1/16 \<le> nearest (12/100)" "nearest (12/100) \<le> 1/8"
    using nearest_between[of "1/16" "12/100" "1/8"] a by simp_all
  have n: "nearest (- (12/100)) = - nearest (12/100)" by (rule nearest_minus)
  have t: "(1/8 :: real) < overflow_threshold" by (rule below_threshold) simp
  have e: "num (- (12/100)) = Fin (- nearest (12/100))"
    unfolding num_def number_of_def Let_def n using b t threshold_pos
    by (auto simp del: threshold_pos)
  show "is_finite (num (- (12/100)))" "val (num (- (12/100))) = - nearest (12/100)"
    unfolding e by simp_all
qed

theorem calculateSavings_zero_baseline_witness:
  "is_double (Fin (1/8)) \<and> js_gt (Fin (1/8)) (Fin 0)
   \<and> is_finite (Fin (1/8)) \<and> \<bar>1/8 :: real\<bar> \<le> 2 ^ 990
   \<and> savedKg (calculateSavings (Fin (1/8)) (Fin 0)) = num (- (12/100))
   \<and> is_finite (num (- (12/100)))
   \<and> val (num (- (12/100))) = two_decimals (- (1/8))
   \<and> percentage (calculateSavings (Fin (1/8)) (Fin 0)) = NegInf
   \<and> percentage (calculateSavings (Fin (1/8)) NegZero) = PosInf
   \<and> is_double NegZero \<and> js_eq NegZero (Fin 0)
   \<and> percentage (calculateSavings NegZero (Fin 0)) = NaN
   \<and> percentage (calculateSavings NegZero NegZero) = NaN"
proof -
  have g: "js_gt (Fin (1/8)) (Fin 0)" by (simp add: js_gt_def)
  have b: "is_finite (Fin (1/8))" "\<bar>1/8 :: real\<bar> \<le> 2 ^ 990" by simp_all
  have z: "is_double NegZero" "js_eq NegZero (Fin 0)"
    by (simp_all add: is_double_def js_eq_def)
  note t = calculateSavings_zero_baseline[OF double_eighth, unfolded savedKg_eighth val.simps]
  note u = calculateSavings_zero_baseline[OF z(1)]
  from t u g b z double_eighth savedKg_eighth show ?thesis by blast
qed

section \<open>The operations stay within binary64\<close>

lemma is_double_special [simp]:
  "is_double NaN" "is_double PosInf" "is_double NegInf" "is_double NegZero" "is_double (Fin 0)"
  by (simp_all add: is_double_def)

lemma is_double_number_of: "is_double (number_of s x)"
proof (cases "is_finite (number_of s x)")
  case True
  then show ?thesis
    unfolding is_double_def number_of_val[OF True]
    by (simp add: representable_nearest number_of_finite_iff abs_less_iff)
next
  case False
  then show ?thesis by (cases "number_of s x") (auto simp: is_double_def)
qed

lemma is_double_zero_of [simp]: "is_double (zero_of s)" "is_double (inf_of s)"
  by (simp_all add: zero_of_def inf_of_def)

lemma is_double_inf: "is_inf x \<Longrightarrow> is_double x"
  by (cases x) simp_all

lemma is_double_sum: "is_double (js_add x y)"
  by (simp add: js_add_def is_double_number_of is_double_inf)

lemma is_double_ops:
  "is_double (js_mul x y)" "is_double (js_div x y)" "is_double (js_add x y)"
  "is_double (js_sub x y)" "is_double (round2 x)" "is_double (num r)"
  by (simp_all add: js_mul_def js_div_def is_double_sum js_sub_def round2_def num_def
      is_double_number_of)

lemma is_double_neg: "is_double x \<Longrightarrow> is_double (js_neg x)"
  by (cases x) (auto simp: is_double_def representable_minus)

lemma representable_round:
  assumes "representable r"
  shows "representable (of_int \<lfloor>r + 1/2\<rfloor>)"
proof -
  obtain m e where r: "r = of_int m * 2 powi e" and m: "\<bar>m\<bar> < 2 ^ 53" and e: "- 1074 \<le> e"
    using assms unfolding representable_def by blast
  show ?thesis
  proof (cases "0 \<le> e")
    case True
    have "(2::real) powi e = of_int (2 ^ nat e)"
      using True by (simp add: power_int_def)
    then have "r = of_int (m * 2 ^ nat e)" unfolding r by simp
    then have "of_int \<lfloor>r + 1/2\<rfloor> = r" by simp
    then show ?thesis using assms by simp
  next
    case False
    then have "e \<le> - 1" by simp
    then have "(2::real) powi e \<le> 2 powi (- 1)" by (rule two_powi_le)
    then have h: "(2::real) powi e \<le> 1/2" by simp
    have p: "(0::real) < 2 powi e" by simp
    have "\<bar>r\<bar> = \<bar>real_of_int m\<bar> * 2 powi e"
      unfolding r using p by (simp add: abs_mult)
    also have "\<dots> \<le> \<bar>real_of_int m\<bar> * (1/2)"
      using h by (intro mult_left_mono) simp_all
    also have "\<bar>real_of_int m\<bar> \<le> real_of_int (2 ^ 53)"
      using m by (simp only: of_int_abs[symmetric] of_int_le_iff)
    finally have b: "\<bar>r\<bar> \<le> 2 ^ 52" by simp
    define k where "k = \<lfloor>r + 1/2\<rfloor>"
    have "k \<le> \<lfloor>(2::real) ^ 52 + 1/2\<rfloor>"
      unfolding k_def using b by (intro floor_mono) linarith
    moreover have "\<lfloor>(2::real) ^ 52 + 1/2\<rfloor> = 2 ^ 52" by (rule floor_unique) simp_all
    moreover have "\<lfloor>- ((2::real) ^ 52) + 1/2\<rfloor> \<le> k"
      unfolding k_def using b by (intro floor_mono) linarith
    moreover have "\<lfloor>- ((2::real) ^ 52) + 1/2\<rfloor> = - (2 ^ 52)" by (rule floor_unique) simp_all
    ultimately have "\<bar>k\<bar> < 2 ^ 53" by simp
    then have "\<bar>\<lfloor>r + 1/2\<rfloor>\<bar> < 2 ^ 53" by (simp only: k_def)
    then show ?thesis by (rule representable_int)
  qed
qed

lemma is_double_round: "is_double x \<Longrightarrow> is_double (Math_round x)"
proof (cases x)
  case (Fin r)
  assume d: "is_double x"
  have rr: "representable r" and rt: "\<bar>r\<bar> < overflow_threshold"
    using d Fin by (simp_all add: is_double_def)
  have "\<bar>real_of_int \<lfloor>r + 1/2\<rfloor>\<bar> < overflow_threshold"
  proof (cases "\<bar>r\<bar> \<le> 2 ^ 60")
    case True
    define k where "k = real_of_int \<lfloor>r + 1/2\<rfloor>"
    have "k \<le> r + 1/2" "r + 1/2 - 1 < k"
      unfolding k_def by linarith+
    then have "\<bar>k\<bar> \<le> 2 ^ 62" using True by (simp add: abs_le_iff)
    then have "\<bar>real_of_int \<lfloor>r + 1/2\<rfloor>\<bar> \<le> 2 ^ 62" by (simp only: k_def)
    then show ?thesis by (rule below_threshold[of "\<bar>real_of_int \<lfloor>r + 1/2\<rfloor>\<bar>"])
  next
    case False
    obtain m e where r: "r = of_int m * 2 powi e" and m: "\<bar>m\<bar> < 2 ^ 53" and e: "- 1074 \<le> e"
      using rr unfolding representable_def by blast
    have "0 \<le> e"
    proof (rule ccontr)
      assume "\<not> 0 \<le> e"
      then have "(2::real) powi e \<le> 2 powi 0" by (intro two_powi_le) simp
      then have h: "(2::real) powi e \<le> 1" by simp
      have "\<bar>r\<bar> = \<bar>real_of_int m\<bar> * 2 powi e" unfolding r by (simp add: abs_mult)
      also have "\<dots> \<le> \<bar>real_of_int m\<bar> * 1" using h by (intro mult_left_mono) simp_all
      also have "\<bar>real_of_int m\<bar> \<le> real_of_int (2 ^ 53)"
        using m by (simp only: of_int_abs[symmetric] of_int_le_iff)
      finally have "\<bar>r\<bar> \<le> 2 ^ 53" by simp
      with False show False by simp
    qed
    then have "(2::real) powi e = of_int (2 ^ nat e)" by (simp add: power_int_def)
    then have "r = of_int (m * 2 ^ nat e)" unfolding r by simp
    then have "of_int \<lfloor>r + 1/2\<rfloor> = r" by simp
    then show ?thesis using rt by simp
  qed
  then show ?thesis
    using Fin representable_round[OF rr] by (simp add: is_double_def)
qed (simp_all add: is_double_def)

section \<open>Exact arithmetic on finite numbers\<close>

lemma finite_of_props [simp]: "is_finite (finite_of s r)" "val (finite_of s r) = r"
  by (auto simp: finite_of_def zero_of_def)

lemma exact_finite_mul:
  "is_finite x \<Longrightarrow> is_finite y \<Longrightarrow>
   is_finite (exact_mul x y) \<and> val (exact_mul x y) = val x * val y"
  by (cases x; cases y) (auto simp: exact_mul_def)

lemma exact_mul_NaN [simp]: "exact_mul x NaN = NaN" "exact_mul NaN x = NaN"
  by (simp_all add: exact_mul_def)

lemma exact_round2_NaN [simp]: "exact_round2 NaN = NaN"
  by (simp add: exact_round2_def exact_div_def)

lemma exact_round2_nonneg:
  assumes "0 \<le> d"
  shows "exact_round2 (Fin d) = Fin (of_int \<lfloor>100 * d + 1/2\<rfloor> / 100)"
proof -
  have m: "exact_mul (Fin d) (Fin 100) = Fin (100 * d)"
    using assms by (simp add: exact_mul_def finite_of_def zero_of_def)
  have "0 \<le> 100 * d" using assms by simp
  then have r: "Math_round (Fin (100 * d)) = Fin (of_int \<lfloor>100 * d + 1/2\<rfloor>)"
    by simp
  have n: "0 \<le> \<lfloor>100 * d + 1/2\<rfloor>" using assms by simp
  define k where "k = \<lfloor>100 * d + 1/2\<rfloor>"
  have "exact_div (Fin (of_int k)) (Fin 100) = Fin (of_int k / 100)"
    using n[folded k_def] by (simp add: exact_div_def finite_of_def zero_of_def)
  then show ?thesis
    unfolding exact_round2_def m r k_def .
qed

section \<open>RoutesDB.haversineDistance\<close>

lemma sin_sq_bounds: "0 \<le> (sin (x::real))\<^sup>2" "(sin (x::real))\<^sup>2 \<le> 1"
proof -
  show "0 \<le> (sin x)\<^sup>2" by simp
  have "(sin x)\<^sup>2 + (cos x)\<^sup>2 = 1" by simp
  moreover have "0 \<le> (cos x)\<^sup>2" by simp
  ultimately show "(sin x)\<^sup>2 \<le> 1" by linarith
qed

lemma sin_sq_half: "(sin ((x::real) / 2))\<^sup>2 = (1 - cos x) / 2"
  using cos_double_sin[of "x / 2"] by simp

lemma haversine_term_bounds:
  fixes p q l :: real
  defines "a \<equiv> (sin ((q - p) / 2))\<^sup>2 + cos p * cos q * (sin (l / 2))\<^sup>2"
  shows "0 \<le> a" and "a \<le> 1"
proof -
  define A where "A = (sin ((q - p) / 2))\<^sup>2"
  define u where "u = (sin (l / 2))\<^sup>2"
  define c where "c = cos (p + q)"
  define B where "B = (1 + c) / 2"
  have c: "- 1 \<le> c" "c \<le> 1" unfolding c_def by simp_all
  have A: "0 \<le> A" "A \<le> 1" unfolding A_def by (rule sin_sq_bounds)+
  have u: "0 \<le> u" "u \<le> 1" unfolding u_def by (rule sin_sq_bounds)+
  have B: "0 \<le> B" "B \<le> 1"
    using c unfolding B_def by simp_all
  have "A = (1 - cos (q - p)) / 2" unfolding A_def by (rule sin_sq_half)
  then have cc: "cos p * cos q = B - A"
    unfolding B_def c_def by (simp add: cos_diff cos_add field_simps)
  have a: "a = A * (1 - u) + B * u"
    unfolding a_def cc A_def[symmetric] u_def[symmetric] by (simp add: algebra_simps)
  have "0 \<le> A * (1 - u)" "0 \<le> B * u" using A B u by simp_all
  then show "0 \<le> a" unfolding a by linarith
  have "A * (1 - u) \<le> 1 - u" using mult_right_mono[of A 1 "1 - u"] A u by simp
  moreover have "B * u \<le> u" using mult_right_mono[of B 1 u] B u by simp
  ultimately show "a \<le> 1" unfolding a by linarith
qed

lemma exact_sub_Fin: "exact_sub (Fin x) (Fin y) = Fin (x - y)"
  by (simp add: exact_sub_def exact_add_def zero_of_def)

lemma exact_mul_Fin_pos: "0 < k \<Longrightarrow> exact_mul (Fin x) (Fin k) = Fin (x * k)"
  "0 < k \<Longrightarrow> exact_mul (Fin k) (Fin x) = Fin (k * x)"
  by (auto simp: exact_mul_def finite_of_def zero_of_def)

lemma exact_div_Fin_pos: "0 < k \<Longrightarrow> exact_div (Fin x) (Fin k) = Fin (x / k)"
  by (auto simp: exact_div_def finite_of_def zero_of_def)

lemma exact_mul_Fin_square: "exact_mul (Fin x) (Fin x) = Fin (x * x)"
  by (auto simp: exact_mul_def finite_of_def zero_of_def)

lemma exact_add_Fin_finite: "is_finite k \<Longrightarrow> exact_add (Fin x) k = Fin (x + val k)"
  by (cases k) (auto simp: exact_add_def zero_of_def)

lemma to_radians: "exact_div (exact_mul (Fin x) Math_PI) (Fin 180) = Fin (radians x)"
  by (simp add: Math_PI_def exact_mul_Fin_pos exact_div_Fin_pos radians_def)

lemma atan2_nonneg: "0 \<le> y \<Longrightarrow> 0 \<le> x \<Longrightarrow> 0 \<le> atan2 y x"
  by (auto simp: atan2_def)

lemma Math_atan2_quadrant:
  "0 \<le> y \<Longrightarrow> 0 \<le> x \<Longrightarrow> Math_atan2 (Fin y) (Fin x) = Fin (atan2 y x)"
  by (auto simp: Math_atan2_def atan2_def)

lemma haversineDistance_finite:
  "haversineDistance (Fin la1) (Fin lo1) (Fin la2) (Fin lo2)
     = Fin (great_circle_km la1 lo1 la2 lo2)"
proof -
  define s1 where "s1 = sin (radians (la2 - la1) / 2)"
  define s2 where "s2 = sin (radians (lo2 - lo1) / 2)"
  define c1 where "c1 = cos (radians la1)"
  define c2 where "c2 = cos (radians la2)"
  define a where "a = s1\<^sup>2 + c1 * c2 * s2\<^sup>2"
  have bounds: "0 \<le> a" "a \<le> 1"
    unfolding a_def s1_def s2_def c1_def c2_def
    using haversine_term_bounds[of "radians la2" "radians la1" "radians (lo2 - lo1)"]
    by (simp_all add: radians_def diff_divide_distrib left_diff_distrib)
  have h1: "Math_sin (exact_div (exact_div (exact_mul (exact_sub (Fin la2) (Fin la1)) Math_PI) (Fin 180)) (Fin 2))
            = Fin s1"
    by (simp add: exact_sub_Fin to_radians exact_div_Fin_pos s1_def)
  have h2: "Math_sin (exact_div (exact_div (exact_mul (exact_sub (Fin lo2) (Fin lo1)) Math_PI) (Fin 180)) (Fin 2))
            = Fin s2"
    by (simp add: exact_sub_Fin to_radians exact_div_Fin_pos s2_def)
  have k1: "Math_cos (exact_div (exact_mul (Fin la1) Math_PI) (Fin 180)) = Fin c1"
    and k2: "Math_cos (exact_div (exact_mul (Fin la2) Math_PI) (Fin 180)) = Fin c2"
    by (simp_all add: to_radians c1_def c2_def)
  define K where "K = exact_mul (exact_mul (exact_mul (Fin c1) (Fin c2)) (Fin s2)) (Fin s2)"
  have K: "is_finite K" "val K = c1 * c2 * s2 * s2"
  proof -
    have p: "is_finite (exact_mul (Fin c1) (Fin c2))" "val (exact_mul (Fin c1) (Fin c2)) = c1 * c2"
      using exact_finite_mul[of "Fin c1" "Fin c2"] by simp_all
    have q: "is_finite (exact_mul (exact_mul (Fin c1) (Fin c2)) (Fin s2))"
      "val (exact_mul (exact_mul (Fin c1) (Fin c2)) (Fin s2)) = c1 * c2 * s2"
      using exact_finite_mul[OF p(1), of "Fin s2"] p(2) by simp_all
    show "is_finite K" "val K = c1 * c2 * s2 * s2"
      unfolding K_def using exact_finite_mul[OF q(1), of "Fin s2"] q(2) by simp_all
  qed
  have a: "exact_add (exact_mul (Fin s1) (Fin s1)) K = Fin a"
    using K by (simp add: exact_mul_Fin_square exact_add_Fin_finite a_def power2_eq_square)
  have c: "exact_mul (Fin 2) (Math_atan2 (Math_sqrt (Fin a)) (Math_sqrt (exact_sub (Fin 1) (Fin a))))
           = Fin (2 * atan2 (sqrt a) (sqrt (1 - a)))"
    using bounds by (simp add: exact_sub_Fin Math_atan2_quadrant exact_mul_Fin_pos)
  have "haversineDistance (Fin la1) (Fin lo1) (Fin la2) (Fin lo2)
        = Fin (6371 * (2 * atan2 (sqrt a) (sqrt (1 - a))))"
    unfolding haversineDistance_def Let_def h1 h2 k1 k2 K_def[symmetric] a c
    by (simp add: exact_mul_Fin_pos)
  also have "\<dots> = Fin (great_circle_km la1 lo1 la2 lo2)"
    by (simp add: great_circle_km_def Let_def a_def s1_def s2_def c1_def c2_def)
  finally show ?thesis .
qed

lemma great_circle_km_nonneg: "0 \<le> great_circle_km la1 lo1 la2 lo2"
proof -
  define a where "a = (sin (radians (la2 - la1) / 2))\<^sup>2
      + cos (radians la1) * cos (radians la2) * (sin (radians (lo2 - lo1) / 2))\<^sup>2"
  have bounds: "0 \<le> a" "a \<le> 1"
    unfolding a_def
    using haversine_term_bounds[of "radians la2" "radians la1" "radians (lo2 - lo1)"]
    by (simp_all add: radians_def diff_divide_distrib left_diff_distrib)
  have "0 \<le> atan2 (sqrt a) (sqrt (1 - a))"
    using bounds by (intro atan2_nonneg) simp_all
  then show ?thesis
    unfolding great_circle_km_def Let_def a_def[symmetric] by simp
qed

section \<open>RoutesDB.findDistance\<close>

lemma registry_values: "v \<in> snd ` set ROUTES_DATA \<Longrightarrow> \<exists>la lo. v = city la lo"
  unfolding ROUTES_DATA_def by auto

lemma registered_entry:
  assumes "registered n"
  obtains la lo where "map_of ROUTES_DATA n = Some (city la lo)"
proof -
  from assms have "n \<in> fst ` set ROUTES_DATA"
    by (simp add: registered_def Object_keys_def)
  then obtain v where v: "map_of ROUTES_DATA n = Some v"
    by (cases "map_of ROUTES_DATA n") (auto simp: map_of_eq_None_iff)
  then have "v \<in> snd ` set ROUTES_DATA"
    by (force dest: map_of_SomeD)
  with registry_values obtain la lo where "v = city la lo" by blast
  with v that show thesis by blast
qed

lemma findDistance_entries:
  assumes a: "map_of ROUTES_DATA origin = Some (city la1 lo1)"
    and b: "map_of ROUTES_DATA destination = Some (city la2 lo2)"
  shows "findDistance origin destination
           = Inr (Number (exact_round2 (Fin (great_circle_km la1 lo1 la2 lo2))))"
  by (simp add: findDistance_def get_property_def a b city_def bind_result_def Let_def
      haversineDistance_finite)

lemma coordinates_entry:
  "map_of ROUTES_DATA n = Some (city la lo) \<Longrightarrow> coordinates n = (la, lo)"
  by (simp add: coordinates_def city_def)

text \<open>
  C3. For every two registered cities, \<open>findDistance\<close> returns the haversine
  great-circle distance \<open>d\<close> between their coordinates (angles converted from
  degrees to radians, Earth radius 6371) rounded to 2 decimal places, that is
  \<open>\<lfloor>100 d + 1/2\<rfloor> / 100\<close>. The term under the square roots lies in \<open>[0, 1]\<close>, so no
  NaN arises and \<open>d\<close> is not negative.
\<close>

theorem findDistance_haversine:
  assumes "registered origin" and "registered destination"
  shows "findDistance origin destination =
           Inr (Number (Fin (of_int \<lfloor>100 * great_circle_km
             (fst (coordinates origin)) (snd (coordinates origin))
             (fst (coordinates destination)) (snd (coordinates destination)) + 1/2\<rfloor> / 100)))"
proof -
  from assms(1) obtain la1 lo1 where a: "map_of ROUTES_DATA origin = Some (city la1 lo1)"
    by (rule registered_entry)
  from assms(2) obtain la2 lo2 where b: "map_of ROUTES_DATA destination = Some (city la2 lo2)"
    by (rule registered_entry)
  show ?thesis
    unfolding findDistance_entries[OF a b] coordinates_entry[OF a] coordinates_entry[OF b]
      fst_conv snd_conv exact_round2_nonneg[OF great_circle_km_nonneg] ..
qed

lemma registered_Santos_Recife: "registered (str ''Santos'')" "registered (str ''Recife'')"
  by (simp_all add: registered_def Object_keys_def ROUTES_DATA_def str_def)

lemma coordinates_Santos_Recife:
  "coordinates (str ''Santos'') = (- 23.9608, - 46.3338)"
  "coordinates (str ''Recife'') = (- 8.0476, - 34.8770)"
  by (simp_all add: coordinates_def ROUTES_DATA_def str_def city_def)

lemma great_circle_km_same: "great_circle_km la lo la lo = 0"
  by (simp add: great_circle_km_def radians_def atan2_def)

theorem findDistance_haversine_witness:
  "registered (str ''Santos'') \<and> registered (str ''Recife'')
   \<and> findDistance (str ''Santos'') (str ''Recife'') =
       Inr (Number (Fin (of_int \<lfloor>100 * great_circle_km (- 23.9608) (- 46.3338) (- 8.0476) (- 34.8770)
                                  + 1/2\<rfloor> / 100)))
   \<and> findDistance (str ''Santos'') (str ''Santos'') = Inr (Number (Fin 0))"
proof -
  note r = registered_Santos_Recife
  have a: "findDistance (str ''Santos'') (str ''Recife'') =
       Inr (Number (Fin (of_int \<lfloor>100 * great_circle_km (- 23.9608) (- 46.3338) (- 8.0476) (- 34.8770)
                                  + 1/2\<rfloor> / 100)))"
    using findDistance_haversine[OF r, unfolded coordinates_Santos_Recife fst_conv snd_conv] .
  have b: "findDistance (str ''Santos'') (str ''Santos'') = Inr (Number (Fin 0))"
    using findDistance_haversine[OF r(1) r(1), unfolded coordinates_Santos_Recife fst_conv snd_conv
        great_circle_km_same]
    by simp
  from r a b show ?thesis by blast
qed

lemma sin_sq_half_swap:
  "(sin (radians (y - x) / 2))\<^sup>2 = (sin (radians (x - y) / 2))\<^sup>2"
proof -
  have "radians (y - x) / 2 = - (radians (x - y) / 2)"
    by (simp add: radians_def field_simps)
  then show ?thesis by (simp only: sin_minus power2_minus)
qed

lemma great_circle_km_sym:
  "great_circle_km la1 lo1 la2 lo2 = great_circle_km la2 lo2 la1 lo1"
proof -
  have "(sin (radians (la2 - la1) / 2))\<^sup>2
          + cos (radians la1) * cos (radians la2) * (sin (radians (lo2 - lo1) / 2))\<^sup>2
        = (sin (radians (la1 - la2) / 2))\<^sup>2
          + cos (radians la2) * cos (radians la1) * (sin (radians (lo1 - lo2) / 2))\<^sup>2"
    by (simp only: sin_sq_half_swap[of la1 la2] sin_sq_half_swap[of lo1 lo2]
        mult.commute[of "cos (radians la1)" "cos (radians la2)"])
  then show ?thesis
    by (simp only: great_circle_km_def Let_def)
qed

lemma exact_round2_zero: "exact_round2 (Fin 0) = Fin 0"
  by (simp add: exact_round2_def exact_mul_def exact_div_def finite_of_def zero_of_def)

text \<open>
  C4. For every pair of registered cities \<open>A\<close>, \<open>B\<close>, \<open>findDistance(A, B)\<close> equals
  \<open>findDistance(B, A)\<close>, and \<open>findDistance(A, A)\<close> is 0.
\<close>

theorem findDistance_symmetric:
  assumes "registered A" and "registered B"
  shows "findDistance A B = findDistance B A \<and> findDistance A A = Inr (Number (Fin 0))"
proof -
  from assms(1) obtain la1 lo1 where a: "map_of ROUTES_DATA A = Some (city la1 lo1)"
    by (rule registered_entry)
  from assms(2) obtain la2 lo2 where b: "map_of ROUTES_DATA B = Some (city la2 lo2)"
    by (rule registered_entry)
  have "findDistance A B = findDistance B A"
    unfolding findDistance_entries[OF a b] findDistance_entries[OF b a]
    by (simp add: great_circle_km_sym[of la1 lo1])
  moreover have "findDistance A A = Inr (Number (Fin 0))"
    unfolding findDistance_entries[OF a a] by (simp add: great_circle_km_same exact_round2_zero)
  ultimately show ?thesis by blast
qed

theorem findDistance_symmetric_witness:
  "registered (str ''Santos'') \<and> registered (str ''Recife'')
   \<and> findDistance (str ''Santos'') (str ''Recife'') = findDistance (str ''Recife'') (str ''Santos'')
   \<and> findDistance (str ''Santos'') (str ''Santos'') = Inr (Number (Fin 0))"
  using findDistance_symmetric[OF registered_Santos_Recife] registered_Santos_Recife
  by blast

section \<open>Names that are not in the registry\<close>

lemma exact_NaN_propagates [simp]:
  "exact_div NaN x = NaN" "exact_div x NaN = NaN" "exact_add NaN x = NaN" "exact_add x NaN = NaN"
  "exact_sub NaN x = NaN" "exact_sub x NaN = NaN" "Math_atan2 NaN x = NaN" "Math_atan2 x NaN = NaN"
  by (simp_all add: exact_div_def exact_add_def exact_sub_def Math_atan2_def)

lemma haversineDistance_NaN: "haversineDistance NaN lo1 la2 lo2 = NaN"
  by (simp add: haversineDistance_def Let_def)

lemma inherited_constructor:
  "get_property ROUTES_DATA (str ''constructor'') = Inherited (str ''constructor'')"
  by (simp add: get_property_def ROUTES_DATA_def Object_prototype_def str_def)

lemma entry_Santos:
  "get_property ROUTES_DATA (str ''Santos'') = city (- 23.9608) (- 46.3338)"
  by (simp add: get_property_def ROUTES_DATA_def str_def)

text \<open>
  C2. \<open>findDistance\<close> tests \<open>ROUTES_DATA[name]\<close> for truthiness, and an object
  literal also answers for the names it inherits from \<open>Object.prototype\<close>. The name
  \<open>constructor\<close> has no entry in the registry, yet the lookup yields a function, the
  guard lets it through, its \<open>lat\<close> and \<open>lng\<close> are \<open>undefined\<close>, and the result is
  NaN instead of \<open>null\<close>.
\<close>

theorem findDistance_inherited_name:
  "\<not> registered (str ''constructor'')
   \<and> findDistance (str ''constructor'') (str ''Santos'') = Inr (Number NaN)"
proof -
  have "\<not> registered (str ''constructor'')"
    by (simp add: registered_def Object_keys_def ROUTES_DATA_def str_def)
  moreover have "findDistance (str ''constructor'') (str ''Santos'') = Inr (Number NaN)"
    unfolding findDistance_def inherited_constructor entry_Santos
    by (simp add: city_def bind_result_def haversineDistance_NaN)
  ultimately show ?thesis by blast
qed

theorem findDistance_inherited_name_witness:
  "findDistance (str ''constructor'') (str ''Santos'') \<noteq> Inr Null"
  using findDistance_inherited_name by simp

text \<open>What does hold of the guard: no call throws, and two registered names give a number.\<close>

lemma findDistance_never_throws: "\<exists>v. findDistance origin destination = Inr v"
  by (cases "get_property ROUTES_DATA origin"; cases "get_property ROUTES_DATA destination")
    (simp_all add: findDistance_def bind_result_def Let_def)

lemma findDistance_registered_number:
  assumes "registered origin" and "registered destination"
  shows "\<exists>n. findDistance origin destination = Inr (Number n)"
proof -
  from assms(1) obtain la1 lo1 where a: "map_of ROUTES_DATA origin = Some (city la1 lo1)"
    by (rule registered_entry)
  from assms(2) obtain la2 lo2 where b: "map_of ROUTES_DATA destination = Some (city la2 lo2)"
    by (rule registered_entry)
  show ?thesis unfolding findDistance_entries[OF a b] by blast
qed

section \<open>RoutesDB.getAllCities\<close>

lemma route_keys:
  "Object_keys ROUTES_DATA =
     [str ''S'' @ [0xE3] @ str ''o Paulo'', str ''Rio de Janeiro'', str ''Belo Horizonte'',
      str ''Salvador'', str ''Bras'' @ [0xED] @ str ''lia'', str ''Curitiba'', str ''Manaus'',
      str ''Bel'' @ [0xE9] @ str ''m'', str ''Recife'', str ''Fortaleza'',
      str ''Porto Alegre'', str ''Goi'' @ [0xE2] @ str ''nia'', str ''Campinas'',
      str ''Santos'', str ''Sorocaba'']"
  by (simp add: Object_keys_def ROUTES_DATA_def)

lemma string_lt_asym: "string_lt x y \<Longrightarrow> \<not> string_lt y x"
  by (induction x y rule: string_lt.induct) auto

lemma insert_sorted_SortCompare:
  "insert_sorted SortCompare x (y # ys) =
     (if string_lt y x then y # insert_sorted SortCompare x ys else x # y # ys)"
  using string_lt_asym[of y x] by (simp add: SortCompare_def js_gt_def)

lemma getAllCities_value:
  "getAllCities =
     [str ''Belo Horizonte'', str ''Bel'' @ [0xE9] @ str ''m'',
      str ''Bras'' @ [0xED] @ str ''lia'', str ''Campinas'', str ''Curitiba'',
      str ''Fortaleza'', str ''Goi'' @ [0xE2] @ str ''nia'', str ''Manaus'',
      str ''Porto Alegre'', str ''Recife'', str ''Rio de Janeiro'', str ''Salvador'',
      str ''Santos'', str ''Sorocaba'', str ''S'' @ [0xE3] @ str ''o Paulo'']"
  unfolding getAllCities_def route_keys Array_sort_def
  by (simp add: insert_sorted_SortCompare str_def del: insert_sorted.simps(2))

text \<open>
  C6. \<open>getAllCities\<close> sorts the keys of the registry with the default comparison of
  \<open>sort()\<close>, which orders strings by their UTF-16 code units. An accented letter
  therefore sorts after every unaccented one: Belo Horizonte comes before Belem (with
  e acute) and Sorocaba before Sao Paulo (with a tilde), which is not alphabetical
  order.
\<close>

theorem getAllCities_order:
  "getAllCities =
     [str ''Belo Horizonte'', str ''Bel'' @ [0xE9] @ str ''m'',
      str ''Bras'' @ [0xED] @ str ''lia'', str ''Campinas'', str ''Curitiba'',
      str ''Fortaleza'', str ''Goi'' @ [0xE2] @ str ''nia'', str ''Manaus'',
      str ''Porto Alegre'', str ''Recife'', str ''Rio de Janeiro'', str ''Salvador'',
      str ''Santos'', str ''Sorocaba'', str ''S'' @ [0xE3] @ str ''o Paulo'']
   \<and> alphabetical_lt (str ''Bel'' @ [0xE9] @ str ''m'') (str ''Belo Horizonte'')
   \<and> alphabetical_lt (str ''S'' @ [0xE3] @ str ''o Paulo'') (str ''Sorocaba'')
   \<and> \<not> alphabetical getAllCities"
proof -
  have a: "alphabetical_lt (str ''Bel'' @ [0xE9] @ str ''m'') (str ''Belo Horizonte'')"
    and b: "alphabetical_lt (str ''S'' @ [0xE3] @ str ''o Paulo'') (str ''Sorocaba'')"
    by (simp_all add: alphabetical_lt_def base_letter_def str_def)
  have "\<not> alphabetical getAllCities"
    unfolding getAllCities_value using a by simp
  with getAllCities_value a b show ?thesis by blast
qed

end
